theory Spec2Isabelle
  imports Main "HOL-Library.Sublist"
begin

text \<open>
  The page \<^verbatim>\<open>src/routes/+page.svelte\<close> simulates an event loop: a fixed program of
  closures, each scheduled with \<^verbatim>\<open>setTimeout\<close>, moves items between a call stack, a
  list of Web APIs, a microtask queue and a callback queue, and all pending timers can be
  paused and resumed. The model is a state record and one function per function of the
  page. An operation that reads \<^verbatim>\<open>Date.now()\<close> takes the reading as its argument
  \<open>now\<close> (one reading per operation); the closures are the values of a datatype, run by
  \<open>run_callback\<close>; the host's timer facility is part of the state.
\<close>

section \<open>Data model (src/routes/types.ts)\<close>

text \<open>
  \<^verbatim>\<open>Status\<close> and \<^verbatim>\<open>EventType\<close> are closed unions of string literals.
\<close>

datatype Status = Idle | Running | Paused | Complete

datatype EventType =
  Fetch | SetTimeout | DOM | Promise | RequestAnimationFrame | Database | ImageLoad

text \<open>
  \<^verbatim>\<open>QueueItem = { id, text, type, duration }\<close>. The types are erased at run time, and
  \<^verbatim>\<open>addToCallStack\<close> can be handed \<^verbatim>\<open>undefined\<close> (the element 0 of an empty
  array), in which case the object it builds has the property \<^verbatim>\<open>id\<close> only. A property
  that is absent reads as \<^verbatim>\<open>undefined\<close>: it is \<open>None\<close> here. Numbers are the
  integers the program uses (identifiers, milliseconds).
\<close>

record QueueItem =
  id_item :: nat
  text_item :: "string option"
  type_item :: "EventType option"
  duration :: "int option"

text \<open>
  The callbacks handed to \<^verbatim>\<open>scheduleEvent\<close> are the twelve closures of
  \<^verbatim>\<open>simulateEventLoop\<close>, named here after the number of the line they log
  (\<open>Cb7\<close> is the closure scheduled from inside \<open>Cb6\<close>).
\<close>

datatype callback =
  Cb2 | Cb3 | Cb4 | Cb5 | Cb6 | Cb7 | Cb8 | Cb9 | Cb10 | Cb11 | Cb12 | Cb13

text \<open>
  \<^verbatim>\<open>ScheduledEvent = { callback, remainingDelay, timer, startTime? }\<close>. The timer is a
  handle of the host or \<^verbatim>\<open>null\<close>; a handle is always truthy.
\<close>

record ScheduledEvent =
  callback :: callback
  remainingDelay :: int
  timer :: "nat option"
  startTime :: "int option"

text \<open>
  The host's timer facility: one entry per live timer, with the handle \<^verbatim>\<open>setTimeout\<close>
  returned, the delay it was given, and what its closure holds: the callback to run
  and the event object (by reference) to filter out of the registry afterwards.
\<close>

record host_timer =
  handle :: nat
  delay :: int
  action :: callback
  target :: nat

text \<open>
  The module's variables. \<^verbatim>\<open>scheduledEvents\<close> is an array of references to event
  objects: each entry is paired with the address of its object, which is what
  \<^verbatim>\<open>e !== event\<close> compares. The last three fields are the host: its live timers, the
  next handle it will hand out, and the next address an object literal receives.
\<close>

record state =
  callStack :: "QueueItem list"
  webAPI :: "QueueItem list"
  callbackQueue :: "QueueItem list"
  microTaskQueue :: "QueueItem list"
  output_log :: "string list"
  status :: Status
  uniqueId :: nat
  scheduledEvents :: "(nat \<times> ScheduledEvent) list"
  timers :: "host_timer list"
  nextHandle :: nat
  nextAddr :: nat

definition init :: state where
  "init = \<lparr>callStack = [], webAPI = [], callbackQueue = [], microTaskQueue = [],
     output_log = [], status = Idle, uniqueId = 0, scheduledEvents = [],
     timers = [], nextHandle = 1, nextAddr = 0\<rparr>"

section \<open>The host: setTimeout and clearTimeout\<close>

definition setTimeout :: "callback \<Rightarrow> nat \<Rightarrow> int \<Rightarrow> state \<Rightarrow> nat \<times> state" where
  "setTimeout cb a d s =
     (nextHandle s,
      s\<lparr>timers := timers s @ [\<lparr>handle = nextHandle s, delay = d, action = cb, target = a\<rparr>],
        nextHandle := nextHandle s + 1\<rparr>)"

definition clearTimeout :: "nat \<Rightarrow> state \<Rightarrow> state" where
  "clearTimeout h s = s\<lparr>timers := filter (\<lambda>t. handle t \<noteq> h) (timers s)\<rparr>"

section \<open>Identifiers, the call stack, the log\<close>

definition getNextId :: "state \<Rightarrow> nat \<times> state" where
  "getNextId s = (uniqueId s, s\<lparr>uniqueId := uniqueId s + 1\<rparr>)"

text \<open>\<^verbatim>\<open>{ ...item, id: n }\<close>: spreading \<^verbatim>\<open>undefined\<close> contributes no property.\<close>

definition spread_id :: "QueueItem option \<Rightarrow> nat \<Rightarrow> QueueItem" where
  "spread_id item n =
     (case item of
        None \<Rightarrow> \<lparr>id_item = n, text_item = None, type_item = None, duration = None\<rparr>
      | Some i \<Rightarrow> i\<lparr>id_item := n\<rparr>)"

definition addToCallStack :: "QueueItem option \<Rightarrow> state \<Rightarrow> state" where
  "addToCallStack item s =
     (let (n, s1) = getNextId s
      in s1\<lparr>callStack := callStack s1 @ [spread_id item n]\<rparr>)"

definition removeFromCallStack :: "string \<Rightarrow> state \<Rightarrow> state" where
  "removeFromCallStack txt s =
     s\<lparr>callStack := filter (\<lambda>item. text_item item \<noteq> Some txt) (callStack s)\<rparr>"

text \<open>
  The object literal \<^verbatim>\<open>{ id: getNextId(), text, type, duration }\<close> takes an identifier
  of its own when it is evaluated.
\<close>

definition literal :: "string \<Rightarrow> EventType \<Rightarrow> int \<Rightarrow> state \<Rightarrow> QueueItem \<times> state" where
  "literal txt ty d s =
     (let (n, s1) = getNextId s
      in (\<lparr>id_item = n, text_item = Some txt, type_item = Some ty, duration = Some d\<rparr>, s1))"

definition log_line :: "string \<Rightarrow> state \<Rightarrow> state" where
  "log_line l s = s\<lparr>output_log := output_log s @ [l]\<rparr>"

text \<open>\<^verbatim>\<open>xs[0]\<close> is \<^verbatim>\<open>undefined\<close> on an empty array; \<^verbatim>\<open>xs.slice(1)\<close> is then empty.\<close>

definition index0 :: "'a list \<Rightarrow> 'a option" where
  "index0 xs = (case xs of [] \<Rightarrow> None | x # _ \<Rightarrow> Some x)"

definition slice1 :: "'a list \<Rightarrow> 'a list" where
  "slice1 xs = drop 1 xs"

section \<open>reset and scheduleEvent\<close>

text \<open>
  \<^verbatim>\<open>scheduledEvents.forEach(event => { if (event.timer) clearTimeout(event.timer); })\<close>.
  The three \<^verbatim>\<open>forEach\<close> loops of the page visit the entries in the order of the array;
  the two that assign to the fields of an entry return the entries as they leave them.
\<close>

fun clearLoop :: "(nat \<times> ScheduledEvent) list \<Rightarrow> state \<Rightarrow> state" where
  "clearLoop [] s = s"
| "clearLoop ((a, e) # es) s =
     (case timer e of
        None \<Rightarrow> clearLoop es s
      | Some h \<Rightarrow> clearLoop es (clearTimeout h s))"

definition reset :: "state \<Rightarrow> state" where
  "reset s =
     (let s1 = s\<lparr>status := Idle, callStack := [], webAPI := [], callbackQueue := [],
                 microTaskQueue := [], output_log := []\<rparr>;
          s2 = clearLoop (scheduledEvents s1) s1
      in s2\<lparr>scheduledEvents := []\<rparr>)"

definition scheduleEvent :: "callback \<Rightarrow> int \<Rightarrow> int \<Rightarrow> state \<Rightarrow> state" where
  "scheduleEvent cb d now s =
     (let a = nextAddr s;
          s1 = s\<lparr>nextAddr := nextAddr s + 1\<rparr>;
          (h, s2) = setTimeout cb a d s1;
          event = \<lparr>callback = cb, remainingDelay = d, timer = Some h, startTime = Some now\<rparr>
      in s2\<lparr>scheduledEvents := scheduledEvents s2 @ [(a, event)]\<rparr>)"

section \<open>pauseExecution and resumeExecution\<close>

text \<open>\<^verbatim>\<open>if (event.startTime)\<close>: a number is truthy unless it is 0.\<close>

definition pauseEvent :: "int \<Rightarrow> ScheduledEvent \<Rightarrow> ScheduledEvent" where
  "pauseEvent now e =
     (let e1 = e\<lparr>timer := None\<rparr>
      in case startTime e1 of
           None \<Rightarrow> e1
         | Some t \<Rightarrow>
             if t = 0 then e1
             else e1\<lparr>remainingDelay := max 0 (remainingDelay e1 - (now - t))\<rparr>)"

fun pauseLoop ::
  "int \<Rightarrow> (nat \<times> ScheduledEvent) list \<Rightarrow> state \<Rightarrow> (nat \<times> ScheduledEvent) list \<times> state" where
  "pauseLoop now [] s = ([], s)"
| "pauseLoop now ((a, e) # es) s =
     (case timer e of
        None \<Rightarrow> (let (es', s') = pauseLoop now es s in ((a, e) # es', s'))
      | Some h \<Rightarrow>
          (let (es', s') = pauseLoop now es (clearTimeout h s)
           in ((a, pauseEvent now e) # es', s')))"

definition pause_line :: string where
  "pause_line =
     [CHR 0xE2, CHR 0x8F, CHR 0xB8, CHR 0xEF, CHR 0xB8, CHR 0x8F] @ '' Execution paused''"

definition resume_line :: string where
  "resume_line =
     [CHR 0xE2, CHR 0x96, CHR 0xB6, CHR 0xEF, CHR 0xB8, CHR 0x8F] @ '' Execution resumed''"

definition pauseExecution :: "int \<Rightarrow> state \<Rightarrow> state" where
  "pauseExecution now s =
     (if status s \<noteq> Running then s
      else let s1 = s\<lparr>status := Paused\<rparr>;
               (es, s2) = pauseLoop now (scheduledEvents s1) s1
           in log_line pause_line (s2\<lparr>scheduledEvents := es\<rparr>))"

fun resumeLoop ::
  "int \<Rightarrow> (nat \<times> ScheduledEvent) list \<Rightarrow> state \<Rightarrow> (nat \<times> ScheduledEvent) list \<times> state" where
  "resumeLoop now [] s = ([], s)"
| "resumeLoop now ((a, e) # es) s =
     (case timer e of
        Some h \<Rightarrow> (let (es', s') = resumeLoop now es s in ((a, e) # es', s'))
      | None \<Rightarrow>
          (let (h, s1) = setTimeout (callback e) a (remainingDelay e) s;
               (es', s') = resumeLoop now es s1
           in ((a, e\<lparr>timer := Some h, startTime := Some now\<rparr>) # es', s')))"

definition resumeExecution :: "int \<Rightarrow> state \<Rightarrow> state" where
  "resumeExecution now s =
     (if status s \<noteq> Paused then s
      else let s1 = s\<lparr>status := Running\<rparr>;
               (es, s2) = resumeLoop now (scheduledEvents s1) s1
           in log_line resume_line (s2\<lparr>scheduledEvents := es\<rparr>))"

section \<open>The simulation program (simulateEventLoop)\<close>

text \<open>\<^verbatim>\<open>addToCallStack({ id: getNextId(), text, type, duration })\<close>\<close>

definition pushLiteral :: "string \<Rightarrow> EventType \<Rightarrow> int \<Rightarrow> state \<Rightarrow> state" where
  "pushLiteral txt ty d s = (let (i, s1) = literal txt ty d s in addToCallStack (Some i) s1)"

text \<open>\<^verbatim>\<open>webAPI = [...webAPI, { id: getNextId(), ... }]\<close>, and the same for the two queues.\<close>

definition addToWebAPI :: "string \<Rightarrow> EventType \<Rightarrow> int \<Rightarrow> state \<Rightarrow> state" where
  "addToWebAPI txt ty d s = (let (i, s1) = literal txt ty d s in s1\<lparr>webAPI := webAPI s1 @ [i]\<rparr>)"

definition addToMicroTaskQueue :: "string \<Rightarrow> EventType \<Rightarrow> int \<Rightarrow> state \<Rightarrow> state" where
  "addToMicroTaskQueue txt ty d s =
     (let (i, s1) = literal txt ty d s in s1\<lparr>microTaskQueue := microTaskQueue s1 @ [i]\<rparr>)"

definition addToCallbackQueue :: "string \<Rightarrow> EventType \<Rightarrow> int \<Rightarrow> state \<Rightarrow> state" where
  "addToCallbackQueue txt ty d s =
     (let (i, s1) = literal txt ty d s in s1\<lparr>callbackQueue := callbackQueue s1 @ [i]\<rparr>)"

text \<open>\<^verbatim>\<open>webAPI = webAPI.filter(item => item.type !== ty)\<close>\<close>

definition removeFromWebAPI :: "EventType \<Rightarrow> state \<Rightarrow> state" where
  "removeFromWebAPI ty s = s\<lparr>webAPI := filter (\<lambda>item. type_item item \<noteq> Some ty) (webAPI s)\<rparr>"

text \<open>
  The body of the closure scheduled at 5500 ms:
  \<^verbatim>\<open>const microtask = microTaskQueue[0]; microTaskQueue = []; addToCallStack(microtask);\<close>
\<close>

definition processMicroTaskQueue :: "state \<Rightarrow> state" where
  "processMicroTaskQueue s =
     (let microtask = index0 (microTaskQueue s);
          s1 = s\<lparr>microTaskQueue := []\<rparr>
      in addToCallStack microtask s1)"

text \<open>
  The body shared by the closures scheduled at 6000 ms and 6500 ms:
  \<^verbatim>\<open>const cb = callbackQueue[0]; callbackQueue = callbackQueue.slice(1); addToCallStack(cb);\<close>
\<close>

definition processCallbackQueue :: "state \<Rightarrow> state" where
  "processCallbackQueue s =
     (let cb = index0 (callbackQueue s);
          s1 = s\<lparr>callbackQueue := slice1 (callbackQueue s)\<rparr>
      in addToCallStack cb s1)"

fun run_callback :: "int \<Rightarrow> callback \<Rightarrow> state \<Rightarrow> state" where
  "run_callback now Cb2 s =
     log_line ''2. Starting image load (3000ms)'' (pushLiteral ''loadImage()'' ImageLoad 3000 s)"
| "run_callback now Cb3 s =
     log_line ''3. Image load moved to Web API''
       (addToWebAPI ''Loading large image'' ImageLoad 3000 (removeFromCallStack ''loadImage()'' s))"
| "run_callback now Cb4 s =
     log_line ''4. Starting database query (2500ms)'' (pushLiteral ''dbQuery()'' Database 2500 s)"
| "run_callback now Cb5 s =
     log_line ''5. Database query moved to Web API''
       (addToWebAPI ''Database query running'' Database 2500 (removeFromCallStack ''dbQuery()'' s))"
| "run_callback now Cb6 s =
     scheduleEvent Cb7 200 now
       (log_line ''6. Creating Promise'' (pushLiteral ''Promise.resolve()'' Promise 0 s))"
| "run_callback now Cb7 s =
     log_line ''7. Promise moved to microtask queue''
       (addToMicroTaskQueue ''Promise callback'' Promise 0 s)"
| "run_callback now Cb8 s =
     log_line ''8. Database query complete, callback queued''
       (addToCallbackQueue ''Database callback'' Database 0 (removeFromWebAPI Database s))"
| "run_callback now Cb9 s =
     log_line ''9. Image load complete, callback queued''
       (addToCallbackQueue ''Image load callback'' ImageLoad 0 (removeFromWebAPI ImageLoad s))"
| "run_callback now Cb10 s =
     log_line ''10. Processing Promise callback'' (processMicroTaskQueue s)"
| "run_callback now Cb11 s =
     log_line ''11. Processing database callback'' (processCallbackQueue s)"
| "run_callback now Cb12 s =
     log_line ''12. Processing image callback'' (processCallbackQueue s)"
| "run_callback now Cb13 s =
     log_line ''13. Execution complete'' (s\<lparr>callStack := [], status := Complete\<rparr>)"

definition simulateEventLoop :: "int \<Rightarrow> state \<Rightarrow> state" where
  "simulateEventLoop now s =
     (let s1 = (reset s)\<lparr>status := Running\<rparr>;
          s2 = log_line ''1. Starting main execution'' (pushLiteral ''main()'' DOM 0 s1);
          s3 = scheduleEvent Cb2 500 now s2;
          s4 = scheduleEvent Cb3 1000 now s3;
          s5 = scheduleEvent Cb4 1500 now s4;
          s6 = scheduleEvent Cb5 2000 now s5;
          s7 = scheduleEvent Cb6 2500 now s6;
          s8 = scheduleEvent Cb8 4500 now s7;
          s9 = scheduleEvent Cb9 5000 now s8;
          s10 = scheduleEvent Cb10 5500 now s9;
          s11 = scheduleEvent Cb11 6000 now s10;
          s12 = scheduleEvent Cb12 6500 now s11
      in scheduleEvent Cb13 7000 now s12)"

section \<open>The host fires a timer; the three buttons\<close>

text \<open>
  The host runs the closure of a live timer, which is then no longer live:
  \<^verbatim>\<open>() => { callback(); scheduledEvents = scheduledEvents.filter(e => e !== event); }\<close>.
  A handle that is not live fires nothing. When the host fires is left open: any live
  timer may fire at any reading of the clock.
\<close>

definition timerFires :: "int \<Rightarrow> nat \<Rightarrow> state \<Rightarrow> state" where
  "timerFires now h s =
     (case find (\<lambda>t. handle t = h) (timers s) of
        None \<Rightarrow> s
      | Some t \<Rightarrow>
          (let s1 = clearTimeout h s;
               s2 = run_callback now (action t) s1
           in s2\<lparr>scheduledEvents := filter (\<lambda>(a, e). a \<noteq> target t) (scheduledEvents s2)\<rparr>))"

text \<open>
  The markup: Run is \<^verbatim>\<open>disabled={status === 'running' || status === 'paused'}\<close>, the
  second button is \<^verbatim>\<open>disabled={status === 'idle' || status === 'complete'}\<close> and calls
  \<^verbatim>\<open>status === 'paused' ? resumeExecution : pauseExecution\<close>, Reset is always enabled.
  A disabled button dispatches no click.
\<close>

datatype trigger = ClickRun | ClickPauseResume | ClickReset | TimerFires nat

fun step :: "int \<Rightarrow> trigger \<Rightarrow> state \<Rightarrow> state" where
  "step now ClickRun s =
     (if status s = Running \<or> status s = Paused then s else simulateEventLoop now s)"
| "step now ClickPauseResume s =
     (if status s = Idle \<or> status s = Complete then s
      else if status s = Paused then resumeExecution now s
      else pauseExecution now s)"
| "step now ClickReset s = reset s"
| "step now (TimerFires h) s = timerFires now h s"

text \<open>
  A run of the page: the triggers in the order they happen, each with the reading of
  \<^verbatim>\<open>Date.now()\<close> at that moment.
\<close>

fun exec :: "(int \<times> trigger) list \<Rightarrow> state \<Rightarrow> state" where
  "exec [] s = s"
| "exec ((now, t) # tr) s = exec tr (step now t s)"

section \<open>Notions used to state the properties\<close>

text \<open>The handles held by the entries of a registry, in order.\<close>

fun handles_of :: "(nat \<times> ScheduledEvent) list \<Rightarrow> nat list" where
  "handles_of [] = []"
| "handles_of ((a, e) # es) =
     (case timer e of None \<Rightarrow> handles_of es | Some h \<Rightarrow> h # handles_of es)"

text \<open>What one round of the loop of \<^verbatim>\<open>pauseExecution\<close> leaves of an entry.\<close>

definition pausedEntry :: "int \<Rightarrow> nat \<times> ScheduledEvent \<Rightarrow> nat \<times> ScheduledEvent" where
  "pausedEntry now x = (fst x, if timer (snd x) = None then snd x else pauseEvent now (snd x))"

text \<open>
  The pause computation, entry by entry, in the words of the specification but for the
  time of arming, which stays as it was: an entry with a live timer loses its handle, its
  timer is no longer live (\<open>ts\<close> are the host's timers afterwards), and its remaining
  delay becomes \<open>max 0 (remainingDelay - (now - armedAt))\<close> when the time of arming is a
  number other than 0; an entry with no live timer is skipped.
\<close>

definition paused_entry_spec ::
  "int \<Rightarrow> host_timer list \<Rightarrow> nat \<times> ScheduledEvent \<Rightarrow> nat \<times> ScheduledEvent \<Rightarrow> bool" where
  "paused_entry_spec now ts x x' \<longleftrightarrow>
     (case timer (snd x) of
        None \<Rightarrow> x' = x
      | Some h \<Rightarrow>
          fst x' = fst x \<and> callback (snd x') = callback (snd x) \<and>
          timer (snd x') = None \<and> h \<notin> set (map handle ts) \<and>
          startTime (snd x') = startTime (snd x) \<and>
          remainingDelay (snd x') =
            (case startTime (snd x) of
               None \<Rightarrow> remainingDelay (snd x)
             | Some t \<Rightarrow>
                 if t = 0 then remainingDelay (snd x)
                 else max 0 (remainingDelay (snd x) - (now - t))))"

text \<open>
  What \<^verbatim>\<open>resumeExecution\<close> does to an entry: one that has a handle is left alone; one
  that has none gets a handle whose timer is live (\<open>ts\<close> are the host's timers
  afterwards) and was started for the remaining delay, and is armed at \<open>now\<close>.
\<close>

definition rearmed ::
  "int \<Rightarrow> host_timer list \<Rightarrow> nat \<times> ScheduledEvent \<Rightarrow> nat \<times> ScheduledEvent \<Rightarrow> bool" where
  "rearmed now ts x x' \<longleftrightarrow>
     fst x' = fst x \<and> callback (snd x') = callback (snd x) \<and>
     remainingDelay (snd x') = remainingDelay (snd x) \<and>
     (case timer (snd x) of
        Some h \<Rightarrow> snd x' = snd x
      | None \<Rightarrow>
          (case timer (snd x') of
             None \<Rightarrow> False
           | Some h \<Rightarrow>
               startTime (snd x') = Some now \<and>
               \<lparr>handle = h, delay = remainingDelay (snd x), action = callback (snd x),
                 target = fst x\<rparr> \<in> set ts))"

text \<open>
  An entry holds a timer of the host: the timer's closure is about this object and this
  callback, and the entry's handle is the timer's.
\<close>

definition holds :: "nat \<times> ScheduledEvent \<Rightarrow> host_timer \<Rightarrow> bool" where
  "holds x t \<longleftrightarrow>
     fst x = target t \<and> timer (snd x) = Some (handle t) \<and> callback (snd x) = action t"

text \<open>
  The invariant of the scheduler: the objects of the registry are distinct and were
  allocated before, every live timer of the host is held by an entry of the registry,
  and no timer is live while the status is \<^verbatim>\<open>paused\<close>.
\<close>

definition scheduler_inv :: "state \<Rightarrow> bool" where
  "scheduler_inv s \<longleftrightarrow>
     distinct (map fst (scheduledEvents s)) \<and>
     (\<forall>x\<in>set (scheduledEvents s). fst x < nextAddr s) \<and>
     (\<forall>t\<in>set (timers s). \<exists>x\<in>set (scheduledEvents s). holds x t) \<and>
     (status s = Paused \<longrightarrow> timers s = [])"

text \<open>
  At most one simulation is under way: no two entries of the registry are for the same
  closure, and the closure \<open>Cb7\<close> is not pending together with \<open>Cb6\<close>, which
  schedules it.
\<close>

definition one_simulation :: "state \<Rightarrow> bool" where
  "one_simulation s \<longleftrightarrow>
     distinct (map (callback \<circ> snd) (scheduledEvents s)) \<and>
     \<not> (Cb6 \<in> set (map (callback \<circ> snd) (scheduledEvents s)) \<and>
        Cb7 \<in> set (map (callback \<circ> snd) (scheduledEvents s)))"

text \<open>
  \<^verbatim>\<open>ScheduledEvent\<close> has no field for the original delay: it is the literal each
  closure is scheduled with in \<^verbatim>\<open>simulateEventLoop\<close>.
\<close>

fun originalDelay :: "callback \<Rightarrow> int" where
  "originalDelay Cb2 = 500"
| "originalDelay Cb3 = 1000"
| "originalDelay Cb4 = 1500"
| "originalDelay Cb5 = 2000"
| "originalDelay Cb6 = 2500"
| "originalDelay Cb7 = 200"
| "originalDelay Cb8 = 4500"
| "originalDelay Cb9 = 5000"
| "originalDelay Cb10 = 5500"
| "originalDelay Cb11 = 6000"
| "originalDelay Cb12 = 6500"
| "originalDelay Cb13 = 7000"

definition delays_nonneg :: "state \<Rightarrow> bool" where
  "delays_nonneg s \<longleftrightarrow> (\<forall>x\<in>set (scheduledEvents s). 0 \<le> remainingDelay (snd x))"

text \<open>
  An entry is within its original delay at the clock reading \<open>t\<close>: its remaining delay
  is between 0 and the original delay, and it was armed no later than \<open>t\<close>.
\<close>

definition within_original :: "int \<Rightarrow> nat \<times> ScheduledEvent \<Rightarrow> bool" where
  "within_original t x \<longleftrightarrow>
     0 \<le> remainingDelay (snd x) \<and>
     remainingDelay (snd x) \<le> originalDelay (callback (snd x)) \<and>
     (case startTime (snd x) of None \<Rightarrow> False | Some t0 \<Rightarrow> t0 \<le> t)"

definition delays_bounded :: "int \<Rightarrow> state \<Rightarrow> bool" where
  "delays_bounded t s \<longleftrightarrow> (\<forall>x\<in>set (scheduledEvents s). within_original t x)"

text \<open>The four containers of the page, and an item without regard to its identifier.\<close>

definition containers ::
  "state \<Rightarrow> QueueItem list \<times> QueueItem list \<times> QueueItem list \<times> QueueItem list" where
  "containers s = (callStack s, webAPI s, microTaskQueue s, callbackQueue s)"

definition forget_id :: "QueueItem \<Rightarrow> QueueItem" where
  "forget_id i = i\<lparr>id_item := 0\<rparr>"

text \<open>The host runs these closures one after the other.\<close>

fun run_callbacks :: "int \<Rightarrow> callback list \<Rightarrow> state \<Rightarrow> state" where
  "run_callbacks now [] s = s"
| "run_callbacks now (cb # cbs) s = run_callbacks now cbs (run_callback now cb s)"

text \<open>
  An entry after a pause and a resume at the same reading of the clock: the same object
  and callback, the same remaining delay, armed at \<open>now\<close>, with a handle whose timer is
  live (\<open>ts\<close> are the host's timers afterwards) and was started for that delay.
\<close>

definition restarted ::
  "int \<Rightarrow> host_timer list \<Rightarrow> nat \<times> ScheduledEvent \<Rightarrow> nat \<times> ScheduledEvent \<Rightarrow> bool" where
  "restarted now ts x x' \<longleftrightarrow>
     fst x' = fst x \<and> callback (snd x') = callback (snd x) \<and>
     remainingDelay (snd x') = remainingDelay (snd x) \<and>
     startTime (snd x') = Some now \<and>
     (case timer (snd x') of
        None \<Rightarrow> False
      | Some h \<Rightarrow>
          \<lparr>handle = h, delay = remainingDelay (snd x), action = callback (snd x),
            target = fst x\<rparr> \<in> set ts)"

text \<open>
  An entry of the registry after a step is kept or new: kept when the registry before
  holds the same object with the same callback and the same remaining delay; new when it
  is armed at \<open>now\<close> with its original delay as remaining delay.
\<close>

definition kept_or_new :: "int \<Rightarrow> state \<Rightarrow> nat \<times> ScheduledEvent \<Rightarrow> bool" where
  "kept_or_new now s x' \<longleftrightarrow>
     (\<exists>x\<in>set (scheduledEvents s).
        fst x = fst x' \<and> callback (snd x) = callback (snd x') \<and>
        remainingDelay (snd x) = remainingDelay (snd x')) \<or>
     (remainingDelay (snd x') = originalDelay (callback (snd x')) \<and>
      startTime (snd x') = Some now)"

definition not_longer :: "nat \<times> ScheduledEvent \<Rightarrow> nat \<times> ScheduledEvent \<Rightarrow> bool" where
  "not_longer x x' \<longleftrightarrow> fst x' = fst x \<and> remainingDelay (snd x') \<le> remainingDelay (snd x)"

text \<open>
  The entry for the object at address \<open>a\<close>, while it is in the registry, is within the
  delay \<open>d\<close> at the clock reading \<open>t\<close>: its remaining delay is between 0 and \<open>d\<close>, and
  it was armed no later than \<open>t\<close>. The address is one that was handed out before.
\<close>

definition entry_within :: "nat \<Rightarrow> int \<Rightarrow> int \<Rightarrow> state \<Rightarrow> bool" where
  "entry_within a d t s \<longleftrightarrow>
     a < nextAddr s \<and>
     (\<forall>x\<in>set (scheduledEvents s).
        fst x = a \<longrightarrow>
        0 \<le> remainingDelay (snd x) \<and> remainingDelay (snd x) \<le> d \<and>
        (case startTime (snd x) of None \<Rightarrow> False | Some t0 \<Rightarrow> t0 \<le> t))"





















section \<open>Lemmas about the operations\<close>

subsection \<open>What each operation does to the fields of the scheduler\<close>

lemmas item_defs = getNextId_def literal_def addToCallStack_def removeFromCallStack_def
  pushLiteral_def addToWebAPI_def addToMicroTaskQueue_def addToCallbackQueue_def
  removeFromWebAPI_def processMicroTaskQueue_def processCallbackQueue_def log_line_def
  spread_id_def index0_def slice1_def

lemma scheduleEvent_registry:
  "scheduledEvents (scheduleEvent cb d now s) =
     scheduledEvents s @
       [(nextAddr s, \<lparr>callback = cb, remainingDelay = d, timer = Some (nextHandle s),
                       startTime = Some now\<rparr>)]"
  by (simp add: scheduleEvent_def setTimeout_def Let_def)

lemma scheduleEvent_timers:
  "timers (scheduleEvent cb d now s) =
     timers s @ [\<lparr>handle = nextHandle s, delay = d, action = cb, target = nextAddr s\<rparr>]"
  by (simp add: scheduleEvent_def setTimeout_def Let_def)

lemma scheduleEvent_frame:
  "nextAddr (scheduleEvent cb d now s) = Suc (nextAddr s)"
  "nextHandle (scheduleEvent cb d now s) = Suc (nextHandle s)"
  "status (scheduleEvent cb d now s) = status s"
  "callStack (scheduleEvent cb d now s) = callStack s"
  "webAPI (scheduleEvent cb d now s) = webAPI s"
  "callbackQueue (scheduleEvent cb d now s) = callbackQueue s"
  "microTaskQueue (scheduleEvent cb d now s) = microTaskQueue s"
  "output_log (scheduleEvent cb d now s) = output_log s"
  "uniqueId (scheduleEvent cb d now s) = uniqueId s"
  by (simp_all add: scheduleEvent_def setTimeout_def Let_def)

lemma run_callback_registry:
  "scheduledEvents (run_callback now cb s) =
     (if cb = Cb6
      then scheduledEvents s @
        [(nextAddr s, \<lparr>callback = Cb7, remainingDelay = 200, timer = Some (nextHandle s),
                        startTime = Some now\<rparr>)]
      else scheduledEvents s)"
  by (cases cb) (simp_all add: scheduleEvent_registry item_defs split_def Let_def)

lemma run_callback_timers:
  "timers (run_callback now cb s) =
     (if cb = Cb6
      then timers s @ [\<lparr>handle = nextHandle s, delay = 200, action = Cb7, target = nextAddr s\<rparr>]
      else timers s)"
  by (cases cb) (simp_all add: scheduleEvent_timers item_defs split_def Let_def)

lemma run_callback_nextAddr:
  "nextAddr (run_callback now cb s) = (if cb = Cb6 then Suc (nextAddr s) else nextAddr s)"
  by (cases cb) (simp_all add: scheduleEvent_frame item_defs split_def Let_def)

lemma run_callback_status:
  "status (run_callback now cb s) = (if cb = Cb13 then Complete else status s)"
  by (cases cb) (simp_all add: scheduleEvent_frame item_defs split_def Let_def)

subsection \<open>The loops of reset, pauseExecution and resumeExecution\<close>

lemma handles_of_iff: "h \<in> set (handles_of es) \<longleftrightarrow> (\<exists>a e. (a, e) \<in> set es \<and> timer e = Some h)"
  by (induction es rule: handles_of.induct) (auto split: option.splits)

lemma clearLoop_eq:
  "clearLoop es s = s\<lparr>timers := filter (\<lambda>t. handle t \<notin> set (handles_of es)) (timers s)\<rparr>"
proof (induction es arbitrary: s)
  case Nil
  show ?case by simp
next
  case (Cons x es)
  obtain a e where x: "x = (a, e)" by (cases x)
  show ?case
    by (cases "timer e") (simp_all add: x Cons clearTimeout_def conj_commute)
qed

lemma pauseLoop_eq:
  "pauseLoop now es s =
     (map (pausedEntry now) es,
      s\<lparr>timers := filter (\<lambda>t. handle t \<notin> set (handles_of es)) (timers s)\<rparr>)"
proof (induction es arbitrary: s)
  case Nil
  show ?case by simp
next
  case (Cons x es)
  obtain a e where x: "x = (a, e)" by (cases x)
  show ?case
    by (cases "timer e") (simp_all add: x Cons clearTimeout_def conj_commute pausedEntry_def)
qed

lemma pauseExecution_eq:
  "status s = Running \<Longrightarrow>
   pauseExecution now s =
     s\<lparr>status := Paused,
       timers := filter (\<lambda>t. handle t \<notin> set (handles_of (scheduledEvents s))) (timers s),
       scheduledEvents := map (pausedEntry now) (scheduledEvents s),
       output_log := output_log s @ [pause_line]\<rparr>"
  by (simp add: pauseExecution_def pauseLoop_eq log_line_def)

lemma reset_eq:
  "reset s =
     s\<lparr>status := Idle, callStack := [], webAPI := [], callbackQueue := [],
       microTaskQueue := [], output_log := [],
       timers := filter (\<lambda>t. handle t \<notin> set (handles_of (scheduledEvents s))) (timers s),
       scheduledEvents := []\<rparr>"
  by (simp add: reset_def clearLoop_eq)

lemma rearmed_mono: "rearmed now ts x x' \<Longrightarrow> set ts \<subseteq> set ts' \<Longrightarrow> rearmed now ts' x x'"
  by (auto simp: rearmed_def split: option.splits)

lemma resumeLoop_frame:
  "callStack (snd (resumeLoop now es s)) = callStack s"
  "webAPI (snd (resumeLoop now es s)) = webAPI s"
  "callbackQueue (snd (resumeLoop now es s)) = callbackQueue s"
  "microTaskQueue (snd (resumeLoop now es s)) = microTaskQueue s"
  "output_log (snd (resumeLoop now es s)) = output_log s"
  "status (snd (resumeLoop now es s)) = status s"
  "uniqueId (snd (resumeLoop now es s)) = uniqueId s"
  "nextAddr (snd (resumeLoop now es s)) = nextAddr s"
  "scheduledEvents (snd (resumeLoop now es s)) = scheduledEvents s"
  by (induction now es s rule: resumeLoop.induct;
      simp add: setTimeout_def split_def Let_def split: option.splits)+

lemma resumeLoop_timers_mono:
  "set (timers s) \<subseteq> set (timers (snd (resumeLoop now es s)))"
  by (induction now es s rule: resumeLoop.induct)
     (auto simp: setTimeout_def split_def Let_def split: option.splits)

lemma resumeLoop_rearmed:
  "list_all2 (rearmed now (timers (snd (resumeLoop now es s)))) es (fst (resumeLoop now es s))"
proof (induction now es s rule: resumeLoop.induct)
  case (1 now s)
  show ?case by simp
next
  case (2 now a e es s)
  show ?case
  proof (cases "timer e")
    case None
    let ?s1 = "snd (setTimeout (callback e) a (remainingDelay e) s)"
    have sub: "set (timers ?s1) \<subseteq> set (timers (snd (resumeLoop now es ?s1)))"
      by (rule resumeLoop_timers_mono)
    have "\<lparr>handle = nextHandle s, delay = remainingDelay e, action = callback e, target = a\<rparr>
            \<in> set (timers ?s1)"
      by (simp add: setTimeout_def)
    with sub have mem: "\<lparr>handle = nextHandle s, delay = remainingDelay e, action = callback e,
        target = a\<rparr> \<in> set (timers (snd (resumeLoop now es ?s1)))"
      by blast
    have ih: "list_all2 (rearmed now (timers (snd (resumeLoop now es ?s1)))) es
                (fst (resumeLoop now es ?s1))"
      using 2(1)[OF None] by (simp add: setTimeout_def)
    have "rearmed now (timers (snd (resumeLoop now es ?s1))) (a, e)
            (a, e\<lparr>timer := Some (nextHandle s), startTime := Some now\<rparr>)"
      using None mem by (simp add: rearmed_def)
    then show ?thesis
      using None ih by (simp add: split_def Let_def setTimeout_def)
  next
    case (Some h)
    have "rearmed now (timers (snd (resumeLoop now es s))) (a, e) (a, e)"
      using Some by (simp add: rearmed_def)
    then show ?thesis
      using Some 2(2)[OF Some] by (simp add: split_def Let_def)
  qed
qed

lemma resumeLoop_new_timers:
  "t \<in> set (timers (snd (resumeLoop now es s))) \<Longrightarrow>
   t \<in> set (timers s) \<or> (\<exists>x\<in>set (fst (resumeLoop now es s)). holds x t)"
  by (induction now es s arbitrary: t rule: resumeLoop.induct)
     (fastforce simp: setTimeout_def split_def Let_def holds_def split: option.splits)+

subsection \<open>The invariant of the scheduler\<close>

lemma scheduler_inv_init: "scheduler_inv init"
  by (simp add: scheduler_inv_def init_def)

lemma scheduler_inv_frame:
  assumes "scheduler_inv s"
    and "scheduledEvents s' = scheduledEvents s" and "timers s' = timers s"
    and "nextAddr s' = nextAddr s" and "status s' = Paused \<longrightarrow> status s = Paused"
  shows "scheduler_inv s'"
  using assms unfolding scheduler_inv_def by auto

lemma cleared_all:
  assumes "scheduler_inv s"
  shows "filter (\<lambda>t. handle t \<notin> set (handles_of (scheduledEvents s))) (timers s) = []"
proof -
  have "handle t \<in> set (handles_of (scheduledEvents s))" if "t \<in> set (timers s)" for t
  proof -
    from assms that obtain x where "x \<in> set (scheduledEvents s)" "timer (snd x) = Some (handle t)"
      unfolding scheduler_inv_def holds_def by blast
    then have "(fst x, snd x) \<in> set (scheduledEvents s) \<and> timer (snd x) = Some (handle t)"
      by simp
    then show ?thesis unfolding handles_of_iff by blast
  qed
  then show ?thesis by (simp add: filter_empty_conv)
qed

lemma reset_timers: "scheduler_inv s \<Longrightarrow> timers (reset s) = []"
  by (simp add: reset_eq cleared_all)

lemma scheduler_inv_reset: "scheduler_inv s \<Longrightarrow> scheduler_inv (reset s)"
  using reset_timers[of s] by (simp add: scheduler_inv_def reset_eq)

lemma scheduler_inv_scheduleEvent:
  assumes "scheduler_inv s" and "status s \<noteq> Paused"
  shows "scheduler_inv (scheduleEvent cb d now s)"
  using assms unfolding scheduler_inv_def holds_def
  by (auto simp: scheduleEvent_registry scheduleEvent_timers scheduleEvent_frame
           intro: less_SucI)

lemma pushLiteral_frame:
  "scheduledEvents (pushLiteral txt ty d s) = scheduledEvents s"
  "timers (pushLiteral txt ty d s) = timers s"
  "nextAddr (pushLiteral txt ty d s) = nextAddr s"
  "nextHandle (pushLiteral txt ty d s) = nextHandle s"
  "status (pushLiteral txt ty d s) = status s"
  by (simp_all add: item_defs split_def Let_def)

lemma log_line_frame:
  "scheduledEvents (log_line l s) = scheduledEvents s"
  "timers (log_line l s) = timers s"
  "nextAddr (log_line l s) = nextAddr s"
  "nextHandle (log_line l s) = nextHandle s"
  "status (log_line l s) = status s"
  by (simp_all add: log_line_def)

lemma scheduler_inv_simulateEventLoop:
  assumes "scheduler_inv s"
  shows "scheduler_inv (simulateEventLoop now s)"
proof -
  let ?s2 = "log_line ''1. Starting main execution''
               (pushLiteral ''main()'' DOM 0 ((reset s)\<lparr>status := Running\<rparr>))"
  have "scheduler_inv ((reset s)\<lparr>status := Running\<rparr>)"
    by (rule scheduler_inv_frame[OF scheduler_inv_reset[OF assms]]) simp_all
  then have "scheduler_inv ?s2"
    by (rule scheduler_inv_frame) (simp_all add: pushLiteral_frame log_line_frame)
  moreover have "status ?s2 = Running"
    by (simp add: pushLiteral_frame log_line_frame)
  ultimately show ?thesis
    unfolding simulateEventLoop_def Let_def
    by (intro scheduler_inv_scheduleEvent) (simp_all add: scheduleEvent_frame)
qed

lemma pausedEntry_fst: "map (fst \<circ> pausedEntry now) es = map fst es"
  by (simp add: pausedEntry_def)

lemma scheduler_inv_pauseExecution:
  assumes "scheduler_inv s"
  shows "scheduler_inv (pauseExecution now s)"
proof (cases "status s = Running")
  case True
  then show ?thesis
    using assms cleared_all[OF assms]
    by (simp add: pauseExecution_eq scheduler_inv_def pausedEntry_fst) (simp add: pausedEntry_def)
next
  case False
  then show ?thesis using assms by (simp add: pauseExecution_def)
qed

lemma rearmed_fst: "list_all2 (rearmed now ts) es es' \<Longrightarrow> map fst es' = map fst es"
  by (induction es es' rule: list_all2_induct) (simp_all add: rearmed_def)

lemma resumeLoop_fst: "map fst (fst (resumeLoop now es s)) = map fst es"
  by (rule rearmed_fst[OF resumeLoop_rearmed])

lemma resumeExecution_eq:
  "status s = Paused \<Longrightarrow>
   resumeExecution now s =
     (snd (resumeLoop now (scheduledEvents s) (s\<lparr>status := Running\<rparr>)))
       \<lparr>scheduledEvents := fst (resumeLoop now (scheduledEvents s) (s\<lparr>status := Running\<rparr>)),
        output_log := output_log s @ [resume_line]\<rparr>"
  by (simp add: resumeExecution_def split_def Let_def log_line_def resumeLoop_frame)

lemma rearmed_keeps_live:
  assumes "list_all2 (rearmed now ts) es es'" and "x \<in> set es" and "timer (snd x) = Some h"
  shows "x \<in> set es'"
  using assms
  by (induction es es' rule: list_all2_induct) (auto simp: rearmed_def prod_eq_iff)

lemma scheduler_inv_resumeExecution:
  assumes "scheduler_inv s"
  shows "scheduler_inv (resumeExecution now s)"
proof (cases "status s = Paused")
  case True
  let ?s1 = "s\<lparr>status := Running\<rparr>"
  let ?r = "resumeLoop now (scheduledEvents s) ?s1"
  have holder: "\<exists>x\<in>set (fst ?r). holds x t"
    if "t \<in> set (timers (snd ?r))" for t
  proof -
    from resumeLoop_new_timers[OF that]
    show ?thesis
    proof
      assume "t \<in> set (timers ?s1)"
      then have "t \<in> set (timers s)" by simp
      with assms obtain x where x: "x \<in> set (scheduledEvents s)" "holds x t"
        unfolding scheduler_inv_def by blast
      from x(2) have "timer (snd x) = Some (handle t)" by (simp add: holds_def)
      from rearmed_keeps_live[OF resumeLoop_rearmed x(1) this] x(2)
      show ?thesis by blast
    qed
  qed
  have "distinct (map fst (fst ?r))"
    using assms by (simp add: resumeLoop_fst scheduler_inv_def)
  moreover have "\<forall>x\<in>set (fst ?r). fst x < nextAddr s"
  proof
    fix x assume "x \<in> set (fst ?r)"
    then have "fst x \<in> set (map fst (fst ?r))" by simp
    then have "fst x \<in> set (map fst (scheduledEvents s))"
      by (simp only: resumeLoop_fst)
    then obtain y where "y \<in> set (scheduledEvents s)" "fst y = fst x" by auto
    with assms show "fst x < nextAddr s" unfolding scheduler_inv_def by metis
  qed
  ultimately show ?thesis
    using True holder by (simp add: resumeExecution_eq scheduler_inv_def resumeLoop_frame)
next
  case False
  then show ?thesis using assms by (simp add: resumeExecution_def)
qed

lemma find_SomeD: "find P xs = Some x \<Longrightarrow> x \<in> set xs \<and> P x"
  by (induction xs) (auto split: if_splits)

lemma timerFires_registry:
  "find (\<lambda>t. handle t = h) (timers s) = Some t \<Longrightarrow>
   scheduledEvents (timerFires now h s) =
     filter (\<lambda>x. fst x \<noteq> target t)
       (if action t = Cb6
        then scheduledEvents s @
          [(nextAddr s, \<lparr>callback = Cb7, remainingDelay = 200, timer = Some (nextHandle s),
                          startTime = Some now\<rparr>)]
        else scheduledEvents s)"
  by (simp add: timerFires_def Let_def run_callback_registry clearTimeout_def split_def)

lemma timerFires_timers:
  "find (\<lambda>t. handle t = h) (timers s) = Some t \<Longrightarrow>
   timers (timerFires now h s) =
     (if action t = Cb6
      then filter (\<lambda>t. handle t \<noteq> h) (timers s) @
        [\<lparr>handle = nextHandle s, delay = 200, action = Cb7, target = nextAddr s\<rparr>]
      else filter (\<lambda>t. handle t \<noteq> h) (timers s))"
  by (simp add: timerFires_def Let_def run_callback_timers clearTimeout_def)

lemma timerFires_nextAddr:
  "find (\<lambda>t. handle t = h) (timers s) = Some t \<Longrightarrow>
   nextAddr (timerFires now h s) = (if action t = Cb6 then Suc (nextAddr s) else nextAddr s)"
  by (simp add: timerFires_def Let_def run_callback_nextAddr clearTimeout_def)

lemma timerFires_status:
  "find (\<lambda>t. handle t = h) (timers s) = Some t \<Longrightarrow>
   status (timerFires now h s) = (if action t = Cb13 then Complete else status s)"
  by (simp add: timerFires_def Let_def run_callback_status clearTimeout_def)

lemma timerFires_idle: "find (\<lambda>t. handle t = h) (timers s) = None \<Longrightarrow> timerFires now h s = s"
  by (simp add: timerFires_def)

lemma scheduler_inv_timerFires:
  assumes inv: "scheduler_inv s"
  shows "scheduler_inv (timerFires now h s)"
proof (cases "find (\<lambda>t. handle t = h) (timers s)")
  case None
  then show ?thesis using inv by (simp add: timerFires_idle)
next
  case (Some t)
  from find_SomeD[OF Some] have t: "t \<in> set (timers s)" "handle t = h" by simp_all
  from inv have dist: "distinct (map fst (scheduledEvents s))"
    and bound: "\<forall>x\<in>set (scheduledEvents s). fst x < nextAddr s"
    and held: "\<forall>t\<in>set (timers s). \<exists>x\<in>set (scheduledEvents s). holds x t"
    and quiet: "status s = Paused \<longrightarrow> timers s = []"
    unfolding scheduler_inv_def by simp_all
  from t quiet have running: "status s \<noteq> Paused" by auto
  from held t(1) obtain xt where xt0: "xt \<in> set (scheduledEvents s)" "holds xt t"
    by blast
  with t(2) have xt: "xt \<in> set (scheduledEvents s)" "fst xt = target t"
      "timer (snd xt) = Some h" by (simp_all add: holds_def)
  have other: "\<exists>x\<in>set (scheduledEvents s). fst x \<noteq> target t \<and> holds x t'"
    if "t' \<in> set (timers s)" "handle t' \<noteq> h" for t'
  proof -
    from held that(1) obtain x where x: "x \<in> set (scheduledEvents s)" "holds x t'" by blast
    have "fst x \<noteq> target t"
    proof
      assume "fst x = target t"
      with xt(2) have "fst x = fst xt" by simp
      moreover from dist have "inj_on fst (set (scheduledEvents s))" by (simp add: distinct_map)
      ultimately have "x = xt" using x(1) xt(1) by (auto dest: inj_onD)
      with x(2) xt(3) that(2) show False by (simp add: holds_def)
    qed
    with x show ?thesis by blast
  qed
  have fresh: "target t < nextAddr s" using bound xt(1) xt(2) by auto
  let ?new = "(nextAddr s, \<lparr>callback = Cb7, remainingDelay = 200, timer = Some (nextHandle s),
                            startTime = Some now\<rparr>)"
  let ?reg = "if action t = Cb6 then scheduledEvents s @ [?new] else scheduledEvents s"
  have c1: "distinct (map fst (filter (\<lambda>x. fst x \<noteq> target t) ?reg))"
    using dist bound by (auto simp: distinct_map_filter)
  have c2: "\<forall>x\<in>set (filter (\<lambda>x. fst x \<noteq> target t) ?reg).
      fst x < (if action t = Cb6 then Suc (nextAddr s) else nextAddr s)"
    using bound by (auto intro: less_SucI)
  have c3: "\<exists>x\<in>set (filter (\<lambda>x. fst x \<noteq> target t) ?reg). holds x t'"
    if "t' \<in> set (timers (timerFires now h s))" for t'
  proof (cases "t' \<in> set (timers s) \<and> handle t' \<noteq> h")
    case True
    then have "\<exists>x\<in>set (scheduledEvents s). fst x \<noteq> target t \<and> holds x t'"
      by (intro other) simp_all
    then obtain x where x: "x \<in> set (scheduledEvents s)" "fst x \<noteq> target t" "holds x t'"
      by blast
    then have "x \<in> set (filter (\<lambda>x. fst x \<noteq> target t) ?reg)" by simp
    from this x(3) show ?thesis by (rule rev_bexI)
  next
    case False
    with that have c6: "action t = Cb6" and
      t': "t' = \<lparr>handle = nextHandle s, delay = 200, action = Cb7, target = nextAddr s\<rparr>"
      by (auto simp: timerFires_timers[OF Some] split: if_splits)
    from fresh show ?thesis by (simp add: c6 t' holds_def)
  qed
  have c4: "(if action t = Cb13 then Complete else status s) \<noteq> Paused"
    using running by simp
  show ?thesis
    unfolding scheduler_inv_def timerFires_registry[OF Some] timerFires_nextAddr[OF Some]
      timerFires_status[OF Some]
    using c1 c2 c3 c4 by blast
qed

lemma scheduler_inv_step: "scheduler_inv s \<Longrightarrow> scheduler_inv (step now t s)"
  by (cases t)
     (simp_all add: scheduler_inv_simulateEventLoop scheduler_inv_pauseExecution
        scheduler_inv_resumeExecution scheduler_inv_reset scheduler_inv_timerFires)

lemma scheduler_inv_exec: "scheduler_inv s \<Longrightarrow> scheduler_inv (exec tr s)"
  by (induction tr s rule: exec.induct) (simp_all add: scheduler_inv_step)

subsection \<open>Remaining delays along a run\<close>

lemma simulateEventLoop_registry:
  "scheduledEvents (simulateEventLoop now s) =
     map (\<lambda>(k, cb). (nextAddr s + k,
            \<lparr>callback = cb, remainingDelay = originalDelay cb,
              timer = Some (nextHandle s + k), startTime = Some now\<rparr>))
       [(0, Cb2), (1, Cb3), (2, Cb4), (3, Cb5), (4, Cb6), (5, Cb8), (6, Cb9), (7, Cb10),
        (8, Cb11), (9, Cb12), (10, Cb13)]"
  by (simp add: simulateEventLoop_def Let_def scheduleEvent_registry scheduleEvent_frame
        pushLiteral_frame log_line_frame reset_eq)

lemma simulateEventLoop_status: "status (simulateEventLoop now s) = Running"
  by (simp add: simulateEventLoop_def Let_def scheduleEvent_frame pushLiteral_frame log_line_frame)

lemma within_original_mono: "within_original t x \<Longrightarrow> t \<le> t' \<Longrightarrow> within_original t' x"
  by (auto simp: within_original_def split: option.splits)

lemma within_original_paused:
  "within_original t x \<Longrightarrow> t \<le> now \<Longrightarrow> within_original now (pausedEntry now x)"
  by (auto simp: within_original_def pausedEntry_def pauseEvent_def Let_def split: option.splits)

lemma rearmed_sources:
  "list_all2 (rearmed now ts) es es' \<Longrightarrow> x' \<in> set es' \<Longrightarrow> \<exists>x\<in>set es. rearmed now ts x x'"
  by (induction es es' rule: list_all2_induct) auto

lemma within_original_rearmed:
  "within_original t x \<Longrightarrow> t \<le> now \<Longrightarrow> rearmed now ts x x' \<Longrightarrow> within_original now x'"
  by (auto simp: within_original_def rearmed_def split: option.splits)

lemma delays_bounded_step:
  assumes "delays_bounded t s" and "t \<le> now"
  shows "delays_bounded now (step now trig s)"
proof -
  have keep: "delays_bounded now s"
    using assms within_original_mono unfolding delays_bounded_def by blast
  show ?thesis
  proof (cases trig)
    case ClickRun
    have "delays_bounded now (simulateEventLoop now s)"
      by (simp add: delays_bounded_def simulateEventLoop_registry within_original_def)
    with keep ClickRun show ?thesis by simp
  next
    case ClickPauseResume
    have p: "delays_bounded now (pauseExecution now s)"
    proof (cases "status s = Running")
      case True
      with assms show ?thesis
        by (auto simp: pauseExecution_eq delays_bounded_def intro: within_original_paused)
    next
      case False
      with keep show ?thesis by (simp add: pauseExecution_def)
    qed
    have r: "delays_bounded now (resumeExecution now s)"
    proof (cases "status s = Paused")
      case True
      show ?thesis
        unfolding delays_bounded_def
      proof
        fix x' assume "x' \<in> set (scheduledEvents (resumeExecution now s))"
        then have "x' \<in> set (fst (resumeLoop now (scheduledEvents s) (s\<lparr>status := Running\<rparr>)))"
          using True by (simp add: resumeExecution_eq)
        from rearmed_sources[OF resumeLoop_rearmed this]
        obtain x where "x \<in> set (scheduledEvents s)" and
          "rearmed now (timers (snd (resumeLoop now (scheduledEvents s) (s\<lparr>status := Running\<rparr>)))) x x'"
          by auto
        with assms show "within_original now x'"
          unfolding delays_bounded_def using within_original_rearmed by blast
      qed
    next
      case False
      with keep show ?thesis by (simp add: resumeExecution_def)
    qed
    from keep p r ClickPauseResume show ?thesis by simp
  next
    case ClickReset
    then show ?thesis by (simp add: delays_bounded_def reset_eq)
  next
    case (TimerFires h)
    show ?thesis
    proof (cases "find (\<lambda>t. handle t = h) (timers s)")
      case None
      with keep TimerFires show ?thesis by (simp add: timerFires_idle)
    next
      case (Some t)
      with keep TimerFires show ?thesis
        by (auto simp: delays_bounded_def timerFires_registry within_original_def)
    qed
  qed
qed

lemma delays_bounded_exec:
  "delays_bounded t s \<Longrightarrow> sorted (t # map fst tr) \<Longrightarrow>
   delays_bounded (last (t # map fst tr)) (exec tr s)"
proof (induction tr s arbitrary: t rule: exec.induct)
  case (1 s)
  then show ?case by simp
next
  case (2 now trig tr s)
  from 2(3) have "t \<le> now" by simp
  with 2(2) have "delays_bounded now (step now trig s)"
    by (rule delays_bounded_step)
  moreover from 2(3) have "sorted (now # map fst tr)" by simp
  ultimately have "delays_bounded (last (now # map fst tr)) (exec tr (step now trig s))"
    by (rule 2(1))
  then show ?case by simp
qed

lemma delays_nonneg_step: "delays_nonneg s \<Longrightarrow> delays_nonneg (step now trig s)"
proof (cases trig)
  case ClickRun
  assume "delays_nonneg s"
  moreover have "delays_nonneg (simulateEventLoop now s)"
    by (simp add: delays_nonneg_def simulateEventLoop_registry)
  ultimately show ?thesis using ClickRun by simp
next
  case ClickPauseResume
  assume a: "delays_nonneg s"
  have p: "delays_nonneg (pauseExecution now s)"
  proof (cases "status s = Running")
    case True
    with a show ?thesis
      by (auto simp: pauseExecution_eq delays_nonneg_def pausedEntry_def pauseEvent_def Let_def
               split: option.splits)
  next
    case False
    with a show ?thesis by (simp add: pauseExecution_def)
  qed
  have r: "delays_nonneg (resumeExecution now s)"
  proof (cases "status s = Paused")
    case True
    show ?thesis
      unfolding delays_nonneg_def
    proof
      fix x' assume "x' \<in> set (scheduledEvents (resumeExecution now s))"
      then have "x' \<in> set (fst (resumeLoop now (scheduledEvents s) (s\<lparr>status := Running\<rparr>)))"
        using True by (simp add: resumeExecution_eq)
      from rearmed_sources[OF resumeLoop_rearmed this]
      obtain x where "x \<in> set (scheduledEvents s)" and
        "rearmed now (timers (snd (resumeLoop now (scheduledEvents s) (s\<lparr>status := Running\<rparr>)))) x x'"
        by auto
      with a show "0 \<le> remainingDelay (snd x')"
        unfolding delays_nonneg_def rearmed_def by auto
    qed
  next
    case False
    with a show ?thesis by (simp add: resumeExecution_def)
  qed
  from a p r ClickPauseResume show ?thesis by simp
next
  case ClickReset
  then show ?thesis by (simp add: delays_nonneg_def reset_eq)
next
  case (TimerFires h)
  assume a: "delays_nonneg s"
  show ?thesis
  proof (cases "find (\<lambda>t. handle t = h) (timers s)")
    case None
    with a TimerFires show ?thesis by (simp add: timerFires_idle)
  next
    case (Some t)
    with a TimerFires show ?thesis
      by (auto simp: delays_nonneg_def timerFires_registry)
  qed
qed

lemma delays_nonneg_exec: "delays_nonneg s \<Longrightarrow> delays_nonneg (exec tr s)"
  by (induction tr s rule: exec.induct) (simp_all add: delays_nonneg_step)

lemma paused_quiet: "status (exec tr init) = Paused \<Longrightarrow> timers (exec tr init) = []"
  using scheduler_inv_exec[OF scheduler_inv_init, of tr] by (simp add: scheduler_inv_def)

subsection \<open>The queues\<close>

lemma forget_id_update: "forget_id (i\<lparr>id_item := n\<rparr>) = forget_id i"
  by (simp add: forget_id_def)

lemma processCallbackQueue_Cons:
  "callbackQueue s = x # xs \<Longrightarrow>
   processCallbackQueue s =
     s\<lparr>callbackQueue := xs, uniqueId := uniqueId s + 1,
       callStack := callStack s @ [x\<lparr>id_item := uniqueId s\<rparr>]\<rparr>"
  by (simp add: item_defs split_def Let_def)

lemma processCallbackQueue_Nil:
  "callbackQueue s = [] \<Longrightarrow>
   processCallbackQueue s =
     s\<lparr>callbackQueue := [], uniqueId := uniqueId s + 1,
       callStack := callStack s @
         [\<lparr>id_item = uniqueId s, text_item = None, type_item = None, duration = None\<rparr>]\<rparr>"
  by (simp add: item_defs split_def Let_def)

lemma dequeue_closures:
  "cb = Cb11 \<or> cb = Cb12 \<Longrightarrow>
   callStack (run_callback now cb s) = callStack (processCallbackQueue s) \<and>
   webAPI (run_callback now cb s) = webAPI (processCallbackQueue s) \<and>
   microTaskQueue (run_callback now cb s) = microTaskQueue (processCallbackQueue s) \<and>
   callbackQueue (run_callback now cb s) = callbackQueue (processCallbackQueue s) \<and>
   uniqueId (run_callback now cb s) = uniqueId (processCallbackQueue s)"
  by (auto simp: log_line_def)

subsection \<open>Pausing and resuming, entry by entry\<close>

lemma list_all2_map_self: "list_all2 P xs (map f xs) \<longleftrightarrow> (\<forall>x\<in>set xs. P x (f x))"
  by (simp add: list_all2_map2 list_all2_same)

lemma pausedEntry_spec:
  assumes "\<forall>h. timer (snd x) = Some h \<longrightarrow> h \<notin> set (map handle ts)"
  shows "paused_entry_spec now ts x (pausedEntry now x)"
  using assms
  by (cases x)
     (auto simp: paused_entry_spec_def pausedEntry_def pauseEvent_def Let_def
           split: option.splits)

lemma timer_None_update: "timer e = None \<Longrightarrow> e\<lparr>timer := None\<rparr> = e"
  by (cases e) simp

lemma pausedEntry_same_instant:
  assumes "startTime (snd x) = Some now" and "0 \<le> remainingDelay (snd x)"
  shows "pausedEntry now x = (fst x, (snd x)\<lparr>timer := None\<rparr>)"
  using assms
  by (cases "timer (snd x)")
     (simp_all add: pausedEntry_def pauseEvent_def Let_def timer_None_update)

lemma rearmed_restarted:
  "rearmed now ts (fst x, (snd x)\<lparr>timer := None\<rparr>) x' \<Longrightarrow> startTime (snd x) = Some now \<Longrightarrow>
   restarted now ts x x'"
  by (auto simp: rearmed_def restarted_def split: option.splits)

lemma restarted_maps:
  "list_all2 (restarted now ts) es es' \<Longrightarrow>
   map fst es' = map fst es \<and>
   map (callback \<circ> snd) es' = map (callback \<circ> snd) es \<and>
   map (remainingDelay \<circ> snd) es' = map (remainingDelay \<circ> snd) es"
  by (induction es es' rule: list_all2_induct) (simp_all add: restarted_def)

subsection \<open>Which steps change a remaining delay\<close>

lemma kept_self: "x \<in> set (scheduledEvents s) \<Longrightarrow> kept_or_new now s x"
  unfolding kept_or_new_def by blast

lemma kept_or_new_step:
  assumes "\<not> (trig = ClickPauseResume \<and> status s = Running)"
    and "x' \<in> set (scheduledEvents (step now trig s))"
  shows "kept_or_new now s x'"
proof (cases trig)
  case ClickRun
  show ?thesis
  proof (cases "status s = Running \<or> status s = Paused")
    case True
    with ClickRun assms(2) show ?thesis by (simp add: kept_self)
  next
    case False
    with ClickRun assms(2) have "x' \<in> set (scheduledEvents (simulateEventLoop now s))"
      by simp
    then show ?thesis
      by (auto simp: simulateEventLoop_registry kept_or_new_def)
  qed
next
  case ClickPauseResume
  with assms(1) have nr: "status s \<noteq> Running" by simp
  show ?thesis
  proof (cases "status s = Paused")
    case True
    with ClickPauseResume assms(2)
    have "x' \<in> set (fst (resumeLoop now (scheduledEvents s) (s\<lparr>status := Running\<rparr>)))"
      by (simp add: resumeExecution_eq)
    from rearmed_sources[OF resumeLoop_rearmed this]
    show ?thesis unfolding kept_or_new_def rearmed_def by metis
  next
    case False
    with nr ClickPauseResume assms(2) have "x' \<in> set (scheduledEvents s)"
      by (auto simp: pauseExecution_def split: if_splits)
    then show ?thesis by (rule kept_self)
  qed
next
  case ClickReset
  with assms(2) show ?thesis by (simp add: reset_eq)
next
  case (TimerFires h)
  show ?thesis
  proof (cases "find (\<lambda>t. handle t = h) (timers s)")
    case None
    with TimerFires assms(2) show ?thesis by (simp add: timerFires_idle kept_self)
  next
    case (Some t)
    with TimerFires assms(2) show ?thesis
      by (auto simp: timerFires_registry kept_self split: if_splits)
         (simp add: kept_or_new_def)
  qed
qed

lemma pause_not_longer:
  assumes "status s = Running" and "delays_bounded t s" and "t \<le> now"
  shows "list_all2 not_longer (scheduledEvents s) (scheduledEvents (pauseExecution now s))"
proof -
  have "not_longer x (pausedEntry now x)" if "x \<in> set (scheduledEvents s)" for x
  proof -
    from assms(2) that have "within_original t x" by (simp add: delays_bounded_def)
    with assms(3) show ?thesis
      by (auto simp: not_longer_def within_original_def pausedEntry_def pauseEvent_def Let_def
               split: option.splits)
  qed
  then show ?thesis
    by (simp add: pauseExecution_eq[OF assms(1)] list_all2_map_self)
qed

lemma delays_bounded_run:
  assumes "sorted (map fst tr)"
  shows "\<forall>x\<in>set (scheduledEvents (exec tr init)). within_original (last (0 # map fst tr)) x"
proof (cases tr)
  case Nil
  then show ?thesis by (simp add: init_def)
next
  case (Cons p tr')
  have "delays_bounded (fst p) init" by (simp add: delays_bounded_def init_def)
  moreover from assms Cons have "sorted (fst p # map fst tr)" by simp
  ultimately have "delays_bounded (last (fst p # map fst tr)) (exec tr init)"
    by (rule delays_bounded_exec)
  with Cons show ?thesis by (simp add: delays_bounded_def)
qed

subsection \<open>One simulation at a time\<close>

lemma one_simulation_init: "one_simulation init"
  by (simp add: one_simulation_def init_def)

lemma pausedEntry_callback: "callback (snd (pausedEntry now x)) = callback (snd x)"
  by (simp add: pausedEntry_def pauseEvent_def Let_def split: option.splits)

lemma rearmed_callback:
  "list_all2 (rearmed now ts) es es' \<Longrightarrow> map (callback \<circ> snd) es' = map (callback \<circ> snd) es"
  by (induction es es' rule: list_all2_induct) (simp_all add: rearmed_def)

lemma one_simulation_subset:
  assumes "one_simulation s"
    and "scheduledEvents s' = filter P (scheduledEvents s)"
  shows "one_simulation s'"
  using assms unfolding one_simulation_def
  by (auto simp: distinct_map_filter)

lemma one_simulation_timerFires:
  assumes inv: "scheduler_inv s" and one: "one_simulation s"
  shows "one_simulation (timerFires now h s)"
proof (cases "find (\<lambda>t. handle t = h) (timers s)")
  case None
  then show ?thesis using one by (simp add: timerFires_idle)
next
  case (Some t)
  from find_SomeD[OF Some] have t: "t \<in> set (timers s)" by simp
  show ?thesis
  proof (cases "action t = Cb6")
    case False
    with Some have "scheduledEvents (timerFires now h s) =
        filter (\<lambda>x. fst x \<noteq> target t) (scheduledEvents s)"
      by (simp add: timerFires_registry)
    with one show ?thesis by (rule one_simulation_subset)
  next
    case True
    let ?cbs = "map (callback \<circ> snd) (scheduledEvents s)"
    let ?new = "(nextAddr s, \<lparr>callback = Cb7, remainingDelay = 200, timer = Some (nextHandle s),
                              startTime = Some now\<rparr>)"
    from inv t obtain xt where xt: "xt \<in> set (scheduledEvents s)" "holds xt t"
      unfolding scheduler_inv_def by blast
    with True have xt6: "fst xt = target t" "callback (snd xt) = Cb6"
      by (simp_all add: holds_def)
    from one have dist: "distinct ?cbs" and excl: "\<not> (Cb6 \<in> set ?cbs \<and> Cb7 \<in> set ?cbs)"
      unfolding one_simulation_def by simp_all
    from xt(1) xt6(2) have "Cb6 \<in> set ?cbs" by force
    with excl have no7: "Cb7 \<notin> set ?cbs" by simp
    have reg: "scheduledEvents (timerFires now h s) =
        filter (\<lambda>x. fst x \<noteq> target t) (scheduledEvents s @ [?new])"
      using Some True by (simp add: timerFires_registry)
    have d: "distinct (map (callback \<circ> snd) (scheduledEvents s @ [?new]))"
      using dist no7 by simp
    have no6: "Cb6 \<notin> (callback \<circ> snd) ` set (filter (\<lambda>x. fst x \<noteq> target t)
        (scheduledEvents s @ [?new]))"
    proof (rule notI, elim imageE)
      fix y
      assume c: "Cb6 = (callback \<circ> snd) y"
        and "y \<in> set (filter (\<lambda>x. fst x \<noteq> target t) (scheduledEvents s @ [?new]))"
      then have y: "y \<in> set (scheduledEvents s)" "fst y \<noteq> target t"
        by (auto split: if_splits)
      from dist have "inj_on (callback \<circ> snd) (set (scheduledEvents s))"
        by (simp add: distinct_map)
      moreover have "(callback \<circ> snd) y = (callback \<circ> snd) xt" using c xt6(2) by simp
      ultimately have "y = xt" using y(1) xt(1) by (rule inj_onD)
      with y(2) xt6(1) show False by simp
    qed
    from d have "distinct (map (callback \<circ> snd)
        (filter (\<lambda>x. fst x \<noteq> target t) (scheduledEvents s @ [?new])))"
      by (rule distinct_map_filter)
    with no6 show ?thesis
      unfolding one_simulation_def reg set_map by blast
  qed
qed

lemma one_simulation_step:
  assumes "scheduler_inv s" and "one_simulation s"
  shows "one_simulation (step now trig s)"
proof (cases trig)
  case ClickRun
  have "one_simulation (simulateEventLoop now s)"
    by (simp add: one_simulation_def simulateEventLoop_registry)
  with assms(2) ClickRun show ?thesis by simp
next
  case ClickPauseResume
  have p: "one_simulation (pauseExecution now s)"
  proof (cases "status s = Running")
    case True
    with assms(2) show ?thesis
      by (simp add: one_simulation_def pauseExecution_eq comp_def pausedEntry_callback)
  next
    case False
    with assms(2) show ?thesis by (simp add: pauseExecution_def)
  qed
  have r: "one_simulation (resumeExecution now s)"
  proof (cases "status s = Paused")
    case True
    have "map (callback \<circ> snd) (fst (resumeLoop now (scheduledEvents s) (s\<lparr>status := Running\<rparr>))) =
        map (callback \<circ> snd) (scheduledEvents s)"
      by (rule rearmed_callback[OF resumeLoop_rearmed])
    with assms(2) True show ?thesis
      by (simp add: one_simulation_def resumeExecution_eq)
  next
    case False
    with assms(2) show ?thesis by (simp add: resumeExecution_def)
  qed
  from assms(2) p r ClickPauseResume show ?thesis by simp
next
  case ClickReset
  then show ?thesis by (simp add: one_simulation_def reset_eq)
next
  case (TimerFires h)
  with assms show ?thesis by (simp add: one_simulation_timerFires)
qed

lemma one_simulation_exec:
  "scheduler_inv s \<Longrightarrow> one_simulation s \<Longrightarrow> one_simulation (exec tr s)"
  by (induction tr s rule: exec.induct) (simp_all add: one_simulation_step scheduler_inv_step)

subsection \<open>One entry, from its registration on\<close>

lemma simulateEventLoop_nextAddr: "nextAddr (simulateEventLoop now s) = nextAddr s + 11"
  by (simp add: simulateEventLoop_def Let_def scheduleEvent_frame pushLiteral_frame
        log_line_frame reset_eq)

lemma entry_within_scheduleEvent:
  assumes "\<forall>x\<in>set (scheduledEvents s). fst x < nextAddr s" and "0 \<le> d"
  shows "entry_within (nextAddr s) d now (scheduleEvent cb d now s)"
  using assms
  by (auto simp: entry_within_def scheduleEvent_registry scheduleEvent_frame)

lemma entry_within_step:
  assumes w: "entry_within a d t s" and le: "t \<le> now"
  shows "entry_within a d now (step now trig s)"
proof -
  from w have a: "a < nextAddr s" by (simp add: entry_within_def)
  have keep: "entry_within a d now s"
    using w le by (auto simp: entry_within_def split: option.splits)
  show ?thesis
  proof (cases trig)
    case ClickRun
    have "entry_within a d now (simulateEventLoop now s)"
      using a by (auto simp: entry_within_def simulateEventLoop_registry simulateEventLoop_nextAddr)
    with keep ClickRun show ?thesis by simp
  next
    case ClickPauseResume
    have p: "entry_within a d now (pauseExecution now s)"
    proof (cases "status s = Running")
      case True
      with w le show ?thesis
        by (auto simp: pauseExecution_eq entry_within_def pausedEntry_def pauseEvent_def Let_def
                 split: option.splits)
    next
      case False
      with keep show ?thesis by (simp add: pauseExecution_def)
    qed
    have r: "entry_within a d now (resumeExecution now s)"
    proof (cases "status s = Paused")
      case True
      let ?loop = "resumeLoop now (scheduledEvents s) (s\<lparr>status := Running\<rparr>)"
      have "0 \<le> remainingDelay (snd x') \<and> remainingDelay (snd x') \<le> d \<and>
          (case startTime (snd x') of None \<Rightarrow> False | Some t0 \<Rightarrow> t0 \<le> now)"
        if "x' \<in> set (fst ?loop)" "fst x' = a" for x'
      proof -
        from rearmed_sources[OF resumeLoop_rearmed that(1)]
        obtain x where x: "x \<in> set (scheduledEvents s)" "rearmed now (timers (snd ?loop)) x x'"
          by auto
        with that(2) have "fst x = a" by (simp add: rearmed_def)
        with keep x(1) have "0 \<le> remainingDelay (snd x) \<and> remainingDelay (snd x) \<le> d \<and>
            (case startTime (snd x) of None \<Rightarrow> False | Some t0 \<Rightarrow> t0 \<le> now)"
          by (simp add: entry_within_def)
        with x(2) show ?thesis
          by (auto simp: rearmed_def split: option.splits)
      qed
      with a True show ?thesis
        by (simp add: entry_within_def resumeExecution_eq resumeLoop_frame)
    next
      case False
      with keep show ?thesis by (simp add: resumeExecution_def)
    qed
    from keep p r ClickPauseResume show ?thesis by simp
  next
    case ClickReset
    with a show ?thesis by (simp add: entry_within_def reset_eq)
  next
    case (TimerFires h)
    show ?thesis
    proof (cases "find (\<lambda>t. handle t = h) (timers s)")
      case None
      with keep TimerFires show ?thesis by (simp add: timerFires_idle)
    next
      case (Some t)
      with keep TimerFires show ?thesis
        by (auto simp: entry_within_def timerFires_registry timerFires_nextAddr)
    qed
  qed
qed

lemma entry_within_exec:
  "entry_within a d t s \<Longrightarrow> sorted (t # map fst tr) \<Longrightarrow>
   entry_within a d (last (t # map fst tr)) (exec tr s)"
proof (induction tr s arbitrary: t rule: exec.induct)
  case (1 s)
  then show ?case by simp
next
  case (2 now trig tr s)
  from 2(3) have "t \<le> now" by simp
  with 2(2) have "entry_within a d now (step now trig s)"
    by (rule entry_within_step)
  moreover from 2(3) have "sorted (now # map fst tr)" by simp
  ultimately have "entry_within a d (last (now # map fst tr)) (exec tr (step now trig s))"
    by (rule 2(1))
  then show ?case by simp
qed

lemma scheduled_entry_bounded:
  assumes "0 \<le> d" and "scheduler_inv s" and "sorted (now # map fst tr)"
    and "x \<in> set (scheduledEvents (exec tr (scheduleEvent cb d now s)))" and "fst x = nextAddr s"
  shows "0 \<le> remainingDelay (snd x) \<and> remainingDelay (snd x) \<le> d"
proof -
  from assms(2) have "\<forall>x\<in>set (scheduledEvents s). fst x < nextAddr s"
    by (simp add: scheduler_inv_def)
  then have "entry_within (nextAddr s) d now (scheduleEvent cb d now s)"
    using assms(1) by (rule entry_within_scheduleEvent)
  from entry_within_exec[OF this assms(3)] assms(4,5) show ?thesis
    by (simp add: entry_within_def)
qed

subsection \<open>The microtask queue along a run\<close>









subsection \<open>Evaluating a run\<close>


subsection \<open>A host that fires the timers in order\<close>




































subsection \<open>What can raise\<close>






section \<open>The properties\<close>

text \<open>
  C1, as amended. When the status is running, pauseExecution sets it to paused and
  treats the entries of the registry one by one: an entry with a live timer has the timer
  stopped and its handle cleared, and its remaining delay becomes
  \<open>max 0 (remainingDelay - (now - armedAt))\<close> (it stays as it is when the time of arming
  is 0 or absent); the time of arming is kept. An entry with no live timer is skipped.
  In any other status, and so on a second call, nothing changes.

  The specification has the time of arming cleared as well. The code never clears it:
  in the program's run below, paused 700 ms after its start, the first entry has no
  handle any more and is still armed at 1000 (the last of the three theorems).
\<close>

theorem pauseExecution_entry_by_entry:
  "(status s = Running \<longrightarrow>
      status (pauseExecution now s) = Paused \<and>
      list_all2 (paused_entry_spec now (timers (pauseExecution now s)))
        (scheduledEvents s) (scheduledEvents (pauseExecution now s))) \<and>
   (status s \<noteq> Running \<longrightarrow> pauseExecution now s = s) \<and>
   pauseExecution now' (pauseExecution now s) = pauseExecution now s"
proof -
  have run: "status (pauseExecution now s) = Paused \<and>
      list_all2 (paused_entry_spec now (timers (pauseExecution now s)))
        (scheduledEvents s) (scheduledEvents (pauseExecution now s))"
    if r: "status s = Running"
  proof -
    let ?ts = "filter (\<lambda>t. handle t \<notin> set (handles_of (scheduledEvents s))) (timers s)"
    have "paused_entry_spec now ?ts x (pausedEntry now x)" if "x \<in> set (scheduledEvents s)" for x
    proof (rule pausedEntry_spec, intro allI impI)
      fix h assume "timer (snd x) = Some h"
      with that have "h \<in> set (handles_of (scheduledEvents s))"
        unfolding handles_of_iff by (metis prod.collapse)
      then show "h \<notin> set (map handle ?ts)" by auto
    qed
    then show ?thesis
      by (simp add: pauseExecution_eq[OF r] list_all2_map_self)
  qed
  have idem: "pauseExecution now' (pauseExecution now s) = pauseExecution now s"
  proof (cases "status s = Running")
    case True
    then have "status (pauseExecution now s) \<noteq> Running" by (simp add: pauseExecution_eq)
    then show ?thesis by (simp add: pauseExecution_def[of now'])
  next
    case False
    then show ?thesis by (simp add: pauseExecution_def)
  qed
  show ?thesis using run idem by (simp add: pauseExecution_def)
qed

theorem pauseExecution_entry_by_entry_witness:
  "status (pauseExecution 1700 (simulateEventLoop 1000 init)) = Paused \<and>
   list_all2
     (paused_entry_spec 1700 (timers (pauseExecution 1700 (simulateEventLoop 1000 init))))
     (scheduledEvents (simulateEventLoop 1000 init))
     (scheduledEvents (pauseExecution 1700 (simulateEventLoop 1000 init))) \<and>
   pauseExecution 1800 (pauseExecution 1700 (simulateEventLoop 1000 init)) =
     pauseExecution 1700 (simulateEventLoop 1000 init) \<and>
   pauseExecution 1700 init = init \<and>
   map (remainingDelay \<circ> snd) (scheduledEvents (pauseExecution 1700 (simulateEventLoop 1000 init))) =
     [0, 300, 800, 1300, 1800, 3800, 4300, 4800, 5300, 5800, 6300]"
proof -
  have r: "status (simulateEventLoop 1000 init) = Running"
    by (rule simulateEventLoop_status)
  have i: "status init \<noteq> Running"
    by (simp add: init_def)
  have v: "map (remainingDelay \<circ> snd)
      (scheduledEvents (pauseExecution 1700 (simulateEventLoop 1000 init))) =
     [0, 300, 800, 1300, 1800, 3800, 4300, 4800, 5300, 5800, 6300]"
    by (simp add: pauseExecution_eq[OF r] simulateEventLoop_registry pausedEntry_def
          pauseEvent_def Let_def)
  from pauseExecution_entry_by_entry[of "simulateEventLoop 1000 init" 1700 1800] r
    pauseExecution_entry_by_entry[of init 1700 1800] i v
  show ?thesis by blast
qed

theorem pauseExecution_counterexample:
  "timer (snd (hd (scheduledEvents (simulateEventLoop 1000 init)))) = Some 1 \<and>
   timer (snd (hd (scheduledEvents (pauseExecution 1700 (simulateEventLoop 1000 init))))) = None \<and>
   startTime (snd (hd (scheduledEvents (pauseExecution 1700 (simulateEventLoop 1000 init))))) =
     Some 1000"
  by (simp add: pauseExecution_eq[OF simulateEventLoop_status] simulateEventLoop_registry
        pausedEntry_def pauseEvent_def Let_def init_def)

text \<open>
  C2, as amended. From any state reset leaves the status idle, the four containers and
  the log empty and the registry empty; from a state that satisfies the scheduler's
  invariant, as every state the page reaches does, no timer of the host is left live.
  The identifier counter is left as it is.

  The specification has the counter restart at 0. No code assigns it after its
  initialisation: after a run and a reset it is 2, and the first item of the next run
  gets the identifier 3 where the first run gave 1 (the last of the three theorems).
\<close>

theorem reset_clears_all_but_the_counter:
  "status (reset s) = Idle \<and> containers (reset s) = ([], [], [], []) \<and>
   output_log (reset s) = [] \<and> scheduledEvents (reset s) = [] \<and>
   uniqueId (reset s) = uniqueId s \<and>
   (scheduler_inv s \<longrightarrow> timers (reset s) = []) \<and>
   timers (reset (exec tr init)) = []"
  using reset_timers[of s] reset_timers[OF scheduler_inv_exec[OF scheduler_inv_init], of tr]
  by (simp add: reset_eq containers_def)

theorem reset_clears_all_but_the_counter_witness:
  "scheduler_inv (simulateEventLoop 0 init) \<and> length (timers (simulateEventLoop 0 init)) = 11 \<and>
   timers (reset (simulateEventLoop 0 init)) = [] \<and>
   uniqueId (reset (simulateEventLoop 0 init)) = 2"
proof -
  have inv: "scheduler_inv (simulateEventLoop 0 init)"
    by (rule scheduler_inv_simulateEventLoop[OF scheduler_inv_init])
  have n: "length (timers (simulateEventLoop 0 init)) = 11"
    by (simp add: simulateEventLoop_def Let_def scheduleEvent_timers scheduleEvent_frame
          pushLiteral_frame log_line_frame reset_eq init_def)
  have u: "uniqueId (simulateEventLoop 0 init) = 2"
    by (simp add: simulateEventLoop_def Let_def scheduleEvent_frame reset_eq init_def
          item_defs split_def)
  from reset_clears_all_but_the_counter[of "simulateEventLoop 0 init"] inv n u
  show ?thesis by simp
qed

theorem reset_counterexample:
  "uniqueId (exec [(0, ClickRun)] init) = 2 \<and>
   uniqueId (exec [(0, ClickRun), (10, ClickReset)] init) = 2 \<and>
   map id_item (callStack (exec [(0, ClickRun)] init)) = [1] \<and>
   map id_item (callStack (exec [(0, ClickRun), (10, ClickReset), (20, ClickRun)] init)) = [3]"
  by (simp add: simulateEventLoop_def Let_def scheduleEvent_frame reset_eq init_def
        item_defs split_def)

text \<open>
  C3, as amended. removeFromCallStack removes every entry of the call stack whose text
  is the given one, keeps the others in their order, changes nothing else, and changes
  nothing at all when no entry has that text.

  The specification has at most one entry removed, the first. The code filters the
  stack: of two entries with the same text neither is left (the last of the three
  theorems).
\<close>

theorem removeFromCallStack_removes_every_match:
  "callStack (removeFromCallStack txt s) = filter (\<lambda>i. text_item i \<noteq> Some txt) (callStack s) \<and>
   subseq (callStack (removeFromCallStack txt s)) (callStack s) \<and>
   (\<forall>i\<in>set (callStack (removeFromCallStack txt s)). text_item i \<noteq> Some txt) \<and>
   length (callStack s) =
     length (callStack (removeFromCallStack txt s)) +
     length (filter (\<lambda>i. text_item i = Some txt) (callStack s)) \<and>
   removeFromCallStack txt s =
     s\<lparr>callStack := filter (\<lambda>i. text_item i \<noteq> Some txt) (callStack s)\<rparr> \<and>
   ((\<forall>i\<in>set (callStack s). text_item i \<noteq> Some txt) \<longrightarrow> removeFromCallStack txt s = s)"
proof -
  have "length (callStack s) =
      length (filter (\<lambda>i. text_item i \<noteq> Some txt) (callStack s)) +
      length (filter (\<lambda>i. text_item i = Some txt) (callStack s))"
    using sum_length_filter_compl[of "\<lambda>i. text_item i \<noteq> Some txt" "callStack s"] by simp
  moreover have "removeFromCallStack txt s = s"
    if "\<forall>i\<in>set (callStack s). text_item i \<noteq> Some txt"
    using that by (simp add: removeFromCallStack_def filter_id_conv)
  ultimately show ?thesis
    by (simp add: removeFromCallStack_def)
qed

theorem removeFromCallStack_removes_every_match_witness:
  "callStack (removeFromCallStack ''loadImage()''
      (pushLiteral ''loadImage()'' ImageLoad 3000 (pushLiteral ''main()'' DOM 0 init))) =
     [\<lparr>id_item = 1, text_item = Some ''main()'', type_item = Some DOM, duration = Some 0\<rparr>] \<and>
   removeFromCallStack ''dbQuery()''
      (pushLiteral ''loadImage()'' ImageLoad 3000 (pushLiteral ''main()'' DOM 0 init)) =
     pushLiteral ''loadImage()'' ImageLoad 3000 (pushLiteral ''main()'' DOM 0 init)"
proof -
  let ?s = "pushLiteral ''loadImage()'' ImageLoad 3000 (pushLiteral ''main()'' DOM 0 init)"
  have st: "callStack ?s =
      [\<lparr>id_item = 1, text_item = Some ''main()'', type_item = Some DOM, duration = Some 0\<rparr>,
       \<lparr>id_item = 3, text_item = Some ''loadImage()'', type_item = Some ImageLoad,
         duration = Some 3000\<rparr>]"
    by (simp add: item_defs init_def split_def Let_def)
  have absent: "\<forall>i\<in>set (callStack ?s). text_item i \<noteq> Some ''dbQuery()''"
    by (simp add: st)
  from removeFromCallStack_removes_every_match[of "''loadImage()''" ?s]
  have "callStack (removeFromCallStack ''loadImage()'' ?s) =
      filter (\<lambda>i. text_item i \<noteq> Some ''loadImage()'') (callStack ?s)"
    by blast
  moreover from removeFromCallStack_removes_every_match[of "''dbQuery()''" ?s] absent
  have "removeFromCallStack ''dbQuery()'' ?s = ?s"
    by blast
  ultimately show ?thesis by (simp add: st)
qed

theorem removeFromCallStack_counterexample:
  "length (callStack (pushLiteral ''f()'' DOM 0 (pushLiteral ''f()'' DOM 0 init))) = 2 \<and>
   callStack (removeFromCallStack ''f()''
      (pushLiteral ''f()'' DOM 0 (pushLiteral ''f()'' DOM 0 init))) = []"
  by (simp add: item_defs init_def split_def Let_def)



text \<open>
  C5. The callback queue is first in, first out: the closures that queue a callback
  append it at the end, each closure that processes the queue takes the item at its head
  off and pushes it on the call stack, and so any number of them take the items off in
  the order of the queue.
\<close>

theorem callbackQueue_fifo:
  "callbackQueue (run_callback now Cb8 s) =
     callbackQueue s @ [\<lparr>id_item = uniqueId s, text_item = Some ''Database callback'',
       type_item = Some Database, duration = Some 0\<rparr>] \<and>
   callbackQueue (run_callback now Cb9 s) =
     callbackQueue s @ [\<lparr>id_item = uniqueId s, text_item = Some ''Image load callback'',
       type_item = Some ImageLoad, duration = Some 0\<rparr>] \<and>
   (set cbs \<subseteq> {Cb11, Cb12} \<and> length cbs \<le> length (callbackQueue s) \<longrightarrow>
      callbackQueue (run_callbacks now cbs s) = drop (length cbs) (callbackQueue s) \<and>
      map forget_id (callStack (run_callbacks now cbs s)) =
        map forget_id (callStack s) @ map forget_id (take (length cbs) (callbackQueue s))) \<and>
   ((cb = Cb11 \<or> cb = Cb12) \<and> callbackQueue s = x # xs \<longrightarrow>
      callbackQueue (run_callback now cb s) = xs \<and>
      callStack (run_callback now cb s) = callStack s @ [x\<lparr>id_item := uniqueId s\<rparr>])"
proof -
  have one: "callbackQueue (run_callback now cb s) = xs \<and>
      callStack (run_callback now cb s) = callStack s @ [x\<lparr>id_item := uniqueId s\<rparr>]"
    if "cb = Cb11 \<or> cb = Cb12" "callbackQueue s = x # xs" for cb s x xs
    using dequeue_closures[OF that(1), of now s] by (simp add: processCallbackQueue_Cons[OF that(2)])
  have many: "callbackQueue (run_callbacks now cbs s) = drop (length cbs) (callbackQueue s) \<and>
      map forget_id (callStack (run_callbacks now cbs s)) =
        map forget_id (callStack s) @ map forget_id (take (length cbs) (callbackQueue s))"
    if "set cbs \<subseteq> {Cb11, Cb12}" "length cbs \<le> length (callbackQueue s)"
    using that
  proof (induction cbs arbitrary: s)
    case Nil
    show ?case by simp
  next
    case (Cons cb cbs)
    from Cons.prems(2) obtain x xs where q: "callbackQueue s = x # xs"
      by (cases "callbackQueue s") auto
    from Cons.prems(1) have cb: "cb = Cb11 \<or> cb = Cb12" by auto
    note hd = one[OF cb q]
    have "callbackQueue (run_callbacks now cbs (run_callback now cb s)) =
        drop (length cbs) (callbackQueue (run_callback now cb s)) \<and>
      map forget_id (callStack (run_callbacks now cbs (run_callback now cb s))) =
        map forget_id (callStack (run_callback now cb s)) @
        map forget_id (take (length cbs) (callbackQueue (run_callback now cb s)))"
      using Cons.prems q hd by (intro Cons.IH) auto
    then show ?case by (simp add: hd q forget_id_update)
  qed
  show ?thesis
    using one many by (simp add: item_defs split_def Let_def)
qed

theorem callbackQueue_fifo_witness:
  "callbackQueue (run_callback 5000 Cb9 (run_callback 4500 Cb8 init)) =
     [\<lparr>id_item = 0, text_item = Some ''Database callback'', type_item = Some Database,
        duration = Some 0\<rparr>,
      \<lparr>id_item = 1, text_item = Some ''Image load callback'', type_item = Some ImageLoad,
        duration = Some 0\<rparr>] \<and>
   callbackQueue (run_callbacks 6000 [Cb11]
      (run_callback 5000 Cb9 (run_callback 4500 Cb8 init))) =
     [\<lparr>id_item = 1, text_item = Some ''Image load callback'', type_item = Some ImageLoad,
        duration = Some 0\<rparr>] \<and>
   map forget_id (callStack (run_callbacks 6000 [Cb11, Cb12]
      (run_callback 5000 Cb9 (run_callback 4500 Cb8 init)))) =
     [\<lparr>id_item = 0, text_item = Some ''Database callback'', type_item = Some Database,
        duration = Some 0\<rparr>,
      \<lparr>id_item = 0, text_item = Some ''Image load callback'', type_item = Some ImageLoad,
        duration = Some 0\<rparr>]"
proof -
  let ?s = "run_callback 5000 Cb9 (run_callback 4500 Cb8 init)"
  have q: "callbackQueue ?s =
     [\<lparr>id_item = 0, text_item = Some ''Database callback'', type_item = Some Database,
        duration = Some 0\<rparr>,
      \<lparr>id_item = 1, text_item = Some ''Image load callback'', type_item = Some ImageLoad,
        duration = Some 0\<rparr>]"
    using callbackQueue_fifo[of 4500 init "[]" Cb8]
      callbackQueue_fifo[of 5000 "run_callback 4500 Cb8 init" "[]" Cb9]
    by (simp add: init_def item_defs split_def Let_def)
  have c: "callStack ?s = []"
    by (simp add: init_def item_defs split_def Let_def)
  have "set [Cb11] \<subseteq> {Cb11, Cb12} \<and> length [Cb11] \<le> length (callbackQueue ?s)"
    unfolding q by simp
  with callbackQueue_fifo[of 6000 ?s "[Cb11]"]
  have one: "callbackQueue (run_callbacks 6000 [Cb11] ?s) = drop (length [Cb11]) (callbackQueue ?s)"
    by blast
  have "set [Cb11, Cb12] \<subseteq> {Cb11, Cb12} \<and> length [Cb11, Cb12] \<le> length (callbackQueue ?s)"
    unfolding q by simp
  with callbackQueue_fifo[of 6000 ?s "[Cb11, Cb12]"]
  have two: "map forget_id (callStack (run_callbacks 6000 [Cb11, Cb12] ?s)) =
      map forget_id (callStack ?s) @
      map forget_id (take (length [Cb11, Cb12]) (callbackQueue ?s))"
    by blast
  show ?thesis
    by (simp only: q one two c) (simp add: forget_id_def)
qed

text \<open>
  C6. While the status is running or paused the Run button is disabled: a click on it
  starts no simulation and leaves the whole state as it is; in the other two states it
  runs simulateEventLoop. So, however the page is driven, at most one simulation is under
  way: no two entries of the registry are for the same closure.
\<close>

theorem run_disabled_while_active:
  "(status s = Running \<or> status s = Paused \<longrightarrow> step now ClickRun s = s) \<and>
   (status s = Idle \<or> status s = Complete \<longrightarrow> step now ClickRun s = simulateEventLoop now s) \<and>
   one_simulation (exec tr init)"
  using one_simulation_exec[OF scheduler_inv_init one_simulation_init, of tr] by auto

theorem run_disabled_while_active_witness:
  "status (exec [(0, ClickRun)] init) = Running \<and>
   step 100 ClickRun (exec [(0, ClickRun)] init) = exec [(0, ClickRun)] init \<and>
   step 0 ClickRun init = simulateEventLoop 0 init \<and>
   map (callback \<circ> snd) (scheduledEvents (exec [(0, ClickRun), (100, ClickRun)] init)) =
     [Cb2, Cb3, Cb4, Cb5, Cb6, Cb8, Cb9, Cb10, Cb11, Cb12, Cb13]"
proof -
  have i: "status init = Idle" by (simp add: init_def)
  then have e: "exec [(0, ClickRun)] init = simulateEventLoop 0 init" by simp
  have r: "status (exec [(0, ClickRun)] init) = Running"
    unfolding e by (rule simulateEventLoop_status)
  from run_disabled_while_active[of "exec [(0, ClickRun)] init" 100] r
  have same: "step 100 ClickRun (exec [(0, ClickRun)] init) = exec [(0, ClickRun)] init"
    by blast
  from run_disabled_while_active[of init 0] i
  have start: "step 0 ClickRun init = simulateEventLoop 0 init"
    by blast
  have "exec [(0, ClickRun), (100, ClickRun)] init = step 100 ClickRun (exec [(0, ClickRun)] init)"
    by simp
  then have "map (callback \<circ> snd) (scheduledEvents (exec [(0, ClickRun), (100, ClickRun)] init)) =
      [Cb2, Cb3, Cb4, Cb5, Cb6, Cb8, Cb9, Cb10, Cb11, Cb12, Cb13]"
    unfolding same e by (simp add: simulateEventLoop_registry)
  with r same start show ?thesis by simp
qed

text \<open>
  C7, as amended. scheduleEvent appends to the registry an entry whose remaining delay
  is the delay it was given, armed at \<open>now\<close>, with a live timer started for that delay.
  The entry stores no original delay; it is the delay the closure is scheduled with.
  While the clock does not run backwards, the remaining delay of an entry scheduled with
  a delay \<open>d\<close> that is not negative stays between 0 and \<open>d\<close> for as long as the entry is
  in the registry; so in every run of the page with such a clock the remaining delay of
  every entry is at most its original delay. Only the pause computation changes a
  remaining delay: after any other step an entry is kept with the remaining delay it had
  or is new with its original delay, and the pause computation makes no remaining delay
  longer.

  Both conditions are needed, as the last of the three theorems shows. The pause
  computation subtracts the time elapsed without looking at its sign: after Run at a
  reading of 1000 and Pause at a reading of 400 the first entry, scheduled with 500, has
  a remaining delay of 1100. And it cuts a remaining delay off at 0 from below: an entry
  scheduled with a delay of -1 has a remaining delay of 0 after a pause.
\<close>

theorem remainingDelay_within_originalDelay:
  "scheduledEvents (scheduleEvent cb d now s) =
     scheduledEvents s @
       [(nextAddr s, \<lparr>callback = cb, remainingDelay = d, timer = Some (nextHandle s),
                       startTime = Some now\<rparr>)] \<and>
   timers (scheduleEvent cb d now s) =
     timers s @ [\<lparr>handle = nextHandle s, delay = d, action = cb, target = nextAddr s\<rparr>] \<and>
   (0 \<le> d \<and> scheduler_inv s \<and> sorted (now # map fst tr') \<longrightarrow>
      (\<forall>x\<in>set (scheduledEvents (exec tr' (scheduleEvent cb d now s))).
         fst x = nextAddr s \<longrightarrow> 0 \<le> remainingDelay (snd x) \<and> remainingDelay (snd x) \<le> d)) \<and>
   (sorted (map fst tr) \<longrightarrow>
      (\<forall>x\<in>set (scheduledEvents (exec tr init)).
         0 \<le> remainingDelay (snd x) \<and>
         remainingDelay (snd x) \<le> originalDelay (callback (snd x)))) \<and>
   (\<not> (trig = ClickPauseResume \<and> status s = Running) \<longrightarrow>
      (\<forall>x'\<in>set (scheduledEvents (step now trig s)). kept_or_new now s x')) \<and>
   (status s = Running \<and> delays_bounded t s \<and> t \<le> now \<longrightarrow>
      list_all2 not_longer (scheduledEvents s) (scheduledEvents (pauseExecution now s)))"
proof -
  have "0 \<le> remainingDelay (snd x) \<and> remainingDelay (snd x) \<le> d"
    if "0 \<le> d \<and> scheduler_inv s \<and> sorted (now # map fst tr')"
      and "x \<in> set (scheduledEvents (exec tr' (scheduleEvent cb d now s)))"
      and "fst x = nextAddr s" for x
    using that scheduled_entry_bounded[of d s now tr' x cb] by blast
  moreover have "0 \<le> remainingDelay (snd x) \<and>
      remainingDelay (snd x) \<le> originalDelay (callback (snd x))"
    if "sorted (map fst tr)" and "x \<in> set (scheduledEvents (exec tr init))" for x
    using that delays_bounded_run[of tr] by (simp add: within_original_def)
  moreover have "kept_or_new now s x'"
    if "\<not> (trig = ClickPauseResume \<and> status s = Running)"
      and "x' \<in> set (scheduledEvents (step now trig s))" for x'
    using that by (rule kept_or_new_step)
  moreover have "list_all2 not_longer (scheduledEvents s) (scheduledEvents (pauseExecution now s))"
    if "status s = Running \<and> delays_bounded t s \<and> t \<le> now"
    using that pause_not_longer[of s t now] by blast
  ultimately show ?thesis
    by (simp add: scheduleEvent_registry scheduleEvent_timers)
qed

theorem remainingDelay_within_originalDelay_witness:
  "scheduledEvents (scheduleEvent Cb7 200 2500 init) =
     [(0, \<lparr>callback = Cb7, remainingDelay = 200, timer = Some 1, startTime = Some 2500\<rparr>)] \<and>
   last (scheduledEvents (exec [(2600, ClickPauseResume)]
      (scheduleEvent Cb7 200 2500 (simulateEventLoop 1000 init)))) =
     (11, \<lparr>callback = Cb7, remainingDelay = 100, timer = None, startTime = Some 2500\<rparr>) \<and>
   remainingDelay (snd (last (scheduledEvents (exec [(2600, ClickPauseResume)]
      (scheduleEvent Cb7 200 2500 (simulateEventLoop 1000 init)))))) \<le> 200 \<and>
   map (remainingDelay \<circ> snd)
     (scheduledEvents (exec [(1000, ClickRun), (1700, ClickPauseResume)] init)) =
     [0, 300, 800, 1300, 1800, 3800, 4300, 4800, 5300, 5800, 6300] \<and>
   list_all (\<lambda>x. 0 \<le> remainingDelay (snd x) \<and>
                 remainingDelay (snd x) \<le> originalDelay (callback (snd x)))
     (scheduledEvents (exec [(1000, ClickRun), (1700, ClickPauseResume)] init)) \<and>
   list_all (kept_or_new 1500 (simulateEventLoop 1000 init))
     (scheduledEvents (step 1500 (TimerFires 1) (simulateEventLoop 1000 init))) \<and>
   list_all2 not_longer (scheduledEvents (simulateEventLoop 1000 init))
     (scheduledEvents (pauseExecution 1700 (simulateEventLoop 1000 init)))"
proof -
  let ?tr = "[(1000::int, ClickRun), (1700, ClickPauseResume)]"
  let ?s = "simulateEventLoop 1000 init"
  let ?s7 = "scheduleEvent Cb7 200 2500 ?s"
  have i: "status init = Idle" by (simp add: init_def)
  have r: "status ?s = Running" by (rule simulateEventLoop_status)
  have e: "exec ?tr init = pauseExecution 1700 ?s"
    using i r by simp
  have v: "map (remainingDelay \<circ> snd) (scheduledEvents (exec ?tr init)) =
      [0, 300, 800, 1300, 1800, 3800, 4300, 4800, 5300, 5800, 6300]"
    unfolding e
    by (simp add: pauseExecution_eq[OF r] simulateEventLoop_registry pausedEntry_def
          pauseEvent_def Let_def)
  have so: "sorted (map fst ?tr)" by simp
  have np: "\<not> (TimerFires 1 = ClickPauseResume \<and> status ?s = Running)" by simp
  have b: "status ?s = Running \<and> delays_bounded 1000 ?s \<and> (1000::int) \<le> 1700"
    by (simp add: r delays_bounded_def simulateEventLoop_registry within_original_def)
  have ni: "nextAddr init = 0" "nextHandle init = 1" by (simp_all add: init_def)
  have r7: "status ?s7 = Running" by (simp add: scheduleEvent_frame r)
  have e7: "exec [(2600, ClickPauseResume)] ?s7 = pauseExecution 2600 ?s7"
    using r7 by simp
  have l7: "last (scheduledEvents (exec [(2600, ClickPauseResume)] ?s7)) =
      (11, \<lparr>callback = Cb7, remainingDelay = 100, timer = None, startTime = Some 2500\<rparr>)"
    unfolding e7
    by (simp add: pauseExecution_eq[OF r7] scheduleEvent_registry simulateEventLoop_nextAddr
          simulateEventLoop_registry pausedEntry_def pauseEvent_def Let_def ni last_map)
  have h7: "(0::int) \<le> 200 \<and> scheduler_inv ?s \<and>
      sorted (2500 # map fst [(2600::int, ClickPauseResume)])"
    by (simp add: scheduler_inv_simulateEventLoop[OF scheduler_inv_init])
  have m7: "last (scheduledEvents (exec [(2600, ClickPauseResume)] ?s7)) \<in>
      set (scheduledEvents (exec [(2600, ClickPauseResume)] ?s7))"
    unfolding e7
    by (rule last_in_set) (simp add: pauseExecution_eq[OF r7] scheduleEvent_registry)
  have a7: "fst (last (scheduledEvents (exec [(2600, ClickPauseResume)] ?s7))) = nextAddr ?s"
    by (simp only: l7) (simp add: simulateEventLoop_nextAddr ni)
  from remainingDelay_within_originalDelay[where cb = Cb7 and d = 200 and now = 2500 and s = ?s
      and tr' = "[(2600, ClickPauseResume)]"] h7 m7 a7
  have b7: "remainingDelay (snd (last (scheduledEvents (exec [(2600, ClickPauseResume)] ?s7))))
      \<le> 200"
    by blast
  have first: "scheduledEvents (scheduleEvent Cb7 200 2500 init) =
      [(0, \<lparr>callback = Cb7, remainingDelay = 200, timer = Some 1, startTime = Some 2500\<rparr>)]"
    using remainingDelay_within_originalDelay[of Cb7 200 2500 init] by (simp add: init_def)
  from remainingDelay_within_originalDelay[where tr = ?tr] so
  have "list_all (\<lambda>x. 0 \<le> remainingDelay (snd x) \<and>
      remainingDelay (snd x) \<le> originalDelay (callback (snd x))) (scheduledEvents (exec ?tr init))"
    unfolding list_all_iff by blast
  moreover
  from remainingDelay_within_originalDelay[where trig = "TimerFires 1" and s = ?s and now = 1500] np
  have "list_all (kept_or_new 1500 ?s) (scheduledEvents (step 1500 (TimerFires 1) ?s))"
    unfolding list_all_iff by blast
  moreover
  from remainingDelay_within_originalDelay[where s = ?s and now = 1700 and t = 1000] b
  have "list_all2 not_longer (scheduledEvents ?s) (scheduledEvents (pauseExecution 1700 ?s))"
    by blast
  ultimately show ?thesis using first v l7 b7 by simp
qed

theorem remainingDelay_counterexample:
  "remainingDelay (snd (hd (scheduledEvents
      (exec [(1000, ClickRun), (400, ClickPauseResume)] init)))) = 1100 \<and>
   originalDelay (callback (snd (hd (scheduledEvents
      (exec [(1000, ClickRun), (400, ClickPauseResume)] init))))) = 500 \<and>
   remainingDelay (snd (last (scheduledEvents
      (scheduleEvent Cb7 (- 1) 2500 (simulateEventLoop 1000 init))))) = - 1 \<and>
   remainingDelay (snd (last (scheduledEvents
      (pauseExecution 2500 (scheduleEvent Cb7 (- 1) 2500 (simulateEventLoop 1000 init)))))) = 0"
proof -
  let ?s = "simulateEventLoop 1000 init"
  have i: "status init = Idle" by (simp add: init_def)
  have r: "status ?s = Running" by (rule simulateEventLoop_status)
  have e: "exec [(1000, ClickRun), (400, ClickPauseResume)] init = pauseExecution 400 ?s"
    using i r by simp
  have r7: "status (scheduleEvent Cb7 (- 1) 2500 ?s) = Running"
    by (simp add: scheduleEvent_frame r)
  show ?thesis
    unfolding e
    by (simp add: pauseExecution_eq[OF r] pauseExecution_eq[OF r7] scheduleEvent_registry
          simulateEventLoop_registry pausedEntry_def pauseEvent_def Let_def last_map)
qed



text \<open>
  C9. pauseExecution and resumeExecution leave the call stack, the Web APIs, the
  microtask queue and the callback queue (and the identifier counter) as they are; and in
  a paused state that the page can reach no timer of the host is live, so that neither a
  timer nor a click on Run changes anything before the click that resumes. (A click on
  Reset is the one trigger that still acts: it ends the pause, and the status is idle.)
\<close>

theorem pause_resume_leave_containers:
  "containers (pauseExecution now s) = containers s \<and>
   uniqueId (pauseExecution now s) = uniqueId s \<and>
   containers (resumeExecution now s) = containers s \<and>
   uniqueId (resumeExecution now s) = uniqueId s \<and>
   (status (exec tr init) = Paused \<longrightarrow>
      step now' (TimerFires h) (exec tr init) = exec tr init \<and>
      step now' ClickRun (exec tr init) = exec tr init)"
proof -
  have p: "containers (pauseExecution now s) = containers s \<and>
      uniqueId (pauseExecution now s) = uniqueId s"
    by (cases "status s = Running")
       (simp_all add: pauseExecution_eq containers_def, simp_all add: pauseExecution_def)
  have r: "containers (resumeExecution now s) = containers s \<and>
      uniqueId (resumeExecution now s) = uniqueId s"
    by (cases "status s = Paused")
       (simp_all add: resumeExecution_eq containers_def resumeLoop_frame,
        simp_all add: resumeExecution_def)
  have q: "step now' (TimerFires h) (exec tr init) = exec tr init \<and>
      step now' ClickRun (exec tr init) = exec tr init"
    if "status (exec tr init) = Paused"
    using that paused_quiet[OF that] by (simp add: timerFires_def)
  from p r q show ?thesis by blast
qed

theorem pause_resume_leave_containers_witness:
  "status (exec [(0, ClickRun), (700, ClickPauseResume)] init) = Paused \<and>
   step 1000 (TimerFires 2) (exec [(0, ClickRun), (700, ClickPauseResume)] init) =
     exec [(0, ClickRun), (700, ClickPauseResume)] init \<and>
   step 1000 ClickRun (exec [(0, ClickRun), (700, ClickPauseResume)] init) =
     exec [(0, ClickRun), (700, ClickPauseResume)] init"
proof -
  have st: "status (exec [(0, ClickRun), (700, ClickPauseResume)] init) = Paused"
    by (simp add: simulateEventLoop_status pauseExecution_eq init_def)
  from pause_resume_leave_containers[of 0 init "[(0, ClickRun), (700, ClickPauseResume)]" 1000 2] st
  show ?thesis by blast
qed

text \<open>
  C10. In a running state that the page has reached, when every entry of the registry
  was armed at the present reading of the clock, pauseExecution followed at once by
  resumeExecution leaves the status running and the registry with the same objects and
  callbacks in the same order, each with its remaining delay unchanged and with a live
  timer started for that delay.
\<close>

theorem pause_resume_round_trip:
  assumes "status (exec tr init) = Running"
    and "\<forall>x\<in>set (scheduledEvents (exec tr init)). startTime (snd x) = Some now"
  shows "status (resumeExecution now (pauseExecution now (exec tr init))) = Running \<and>
    list_all2 (restarted now (timers (resumeExecution now (pauseExecution now (exec tr init)))))
      (scheduledEvents (exec tr init))
      (scheduledEvents (resumeExecution now (pauseExecution now (exec tr init)))) \<and>
    map fst (scheduledEvents (resumeExecution now (pauseExecution now (exec tr init)))) =
      map fst (scheduledEvents (exec tr init)) \<and>
    map (callback \<circ> snd) (scheduledEvents (resumeExecution now (pauseExecution now (exec tr init)))) =
      map (callback \<circ> snd) (scheduledEvents (exec tr init)) \<and>
    map (remainingDelay \<circ> snd)
        (scheduledEvents (resumeExecution now (pauseExecution now (exec tr init)))) =
      map (remainingDelay \<circ> snd) (scheduledEvents (exec tr init))"
proof -
  let ?s = "exec tr init"
  let ?p = "pauseExecution now ?s"
  let ?r = "resumeExecution now ?p"
  have "delays_nonneg init" by (simp add: delays_nonneg_def init_def)
  then have nonneg: "delays_nonneg ?s" by (rule delays_nonneg_exec)
  have same: "pausedEntry now x = (fst x, (snd x)\<lparr>timer := None\<rparr>)"
    if "x \<in> set (scheduledEvents ?s)" for x
    using that assms(2) nonneg by (intro pausedEntry_same_instant) (auto simp: delays_nonneg_def)
  have preg: "scheduledEvents ?p = map (\<lambda>x. (fst x, (snd x)\<lparr>timer := None\<rparr>)) (scheduledEvents ?s)"
    using same by (simp add: pauseExecution_eq[OF assms(1)])
  have pst: "status ?p = Paused"
    by (simp add: pauseExecution_eq[OF assms(1)])
  let ?loop = "resumeLoop now (scheduledEvents ?p) (?p\<lparr>status := Running\<rparr>)"
  have rreg: "scheduledEvents ?r = fst ?loop" and rts: "timers ?r = timers (snd ?loop)"
    and rst: "status ?r = Running"
    by (simp_all add: resumeExecution_eq[OF pst] resumeLoop_frame)
  have "list_all2 (rearmed now (timers ?r)) (scheduledEvents ?p) (scheduledEvents ?r)"
    unfolding rreg rts by (rule resumeLoop_rearmed)
  then have "list_all2 (\<lambda>x x'. rearmed now (timers ?r) (fst x, (snd x)\<lparr>timer := None\<rparr>) x')
      (scheduledEvents ?s) (scheduledEvents ?r)"
    by (simp add: preg list_all2_map1)
  then have rt: "list_all2 (restarted now (timers ?r)) (scheduledEvents ?s) (scheduledEvents ?r)"
    by (rule list.rel_mono_strong) (use assms(2) in \<open>auto intro: rearmed_restarted\<close>)
  from rst rt restarted_maps[OF rt] show ?thesis by simp
qed

theorem pause_resume_round_trip_witness:
  "status (resumeExecution 1000 (pauseExecution 1000 (exec [(1000, ClickRun)] init))) = Running \<and>
   map fst (scheduledEvents
      (resumeExecution 1000 (pauseExecution 1000 (exec [(1000, ClickRun)] init)))) =
     [0, 1, 2, 3, 4, 5, 6, 7, 8, 9, 10] \<and>
   map (remainingDelay \<circ> snd) (scheduledEvents
      (resumeExecution 1000 (pauseExecution 1000 (exec [(1000, ClickRun)] init)))) =
     [500, 1000, 1500, 2000, 2500, 4500, 5000, 5500, 6000, 6500, 7000]"
proof -
  have "status init = Idle"
    by (simp add: init_def)
  then have e: "exec [(1000, ClickRun)] init = simulateEventLoop 1000 init"
    by simp
  have r: "status (exec [(1000, ClickRun)] init) = Running"
    unfolding e by (rule simulateEventLoop_status)
  have a: "\<forall>x\<in>set (scheduledEvents (exec [(1000, ClickRun)] init)). startTime (snd x) = Some 1000"
    unfolding e by (simp add: simulateEventLoop_registry)
  have v: "map fst (scheduledEvents (exec [(1000, ClickRun)] init)) =
      [0, 1, 2, 3, 4, 5, 6, 7, 8, 9, 10]"
    "map (remainingDelay \<circ> snd) (scheduledEvents (exec [(1000, ClickRun)] init)) =
      [500, 1000, 1500, 2000, 2500, 4500, 5000, 5500, 6000, 6500, 7000]"
    unfolding e by (simp_all add: simulateEventLoop_registry init_def)
  from pause_resume_round_trip[OF r a] v show ?thesis by simp
qed

end
